theory Spec2Isabelle
  imports Main "HOL-Library.Sublist"
begin

section \<open>Unicode text\<close>

text \<open>
  The script decodes every input to Python 2 \<^verbatim>\<open>unicode\<close> objects, so text is a
  list of code points. String literals of the script are ASCII and are written with
  \<open>ustr\<close>.
\<close>

type_synonym codepoint = nat
type_synonym unicode = "codepoint list"

definition ustr :: "string \<Rightarrow> unicode" where
  "ustr s = map of_char s"

text \<open>
  \<^verbatim>\<open>unicode.strip\<close> and \<^verbatim>\<open>unicode.upper\<close> consult the Unicode character database
  of the interpreter. On ASCII their behaviour is fixed and written out below; for code
  points from 128 on the two tables are a parameter of the model.
\<close>

record unicode_db =
  db_isspace :: "codepoint \<Rightarrow> bool"
  db_toupper :: "codepoint \<Rightarrow> codepoint"

definition isspace :: "unicode_db \<Rightarrow> codepoint \<Rightarrow> bool" where
  "isspace db c =
     (if c < 128 then (9 \<le> c \<and> c \<le> 13) \<or> (28 \<le> c \<and> c \<le> 32) else db_isspace db c)"

definition toupper :: "unicode_db \<Rightarrow> codepoint \<Rightarrow> codepoint" where
  "toupper db c =
     (if c < 128 then (if 97 \<le> c \<and> c \<le> 122 then c - 32 else c) else db_toupper db c)"

text \<open>
  Tables that leave every code point from 128 on alone. The concrete runs below are on
  ASCII text, where the tables are not consulted.
\<close>

definition ascii_db :: unicode_db where
  "ascii_db = \<lparr>db_isspace = (\<lambda>c. False), db_toupper = (\<lambda>c. c)\<rparr>"

text \<open>\<^verbatim>\<open>s.strip()\<close>: leading and trailing whitespace removed.\<close>

definition strip :: "unicode_db \<Rightarrow> unicode \<Rightarrow> unicode" where
  "strip db s = rev (dropWhile (isspace db) (rev (dropWhile (isspace db) s)))"

text \<open>\<^verbatim>\<open>s.upper()\<close>: Python 2 maps code point by code point.\<close>

definition upper :: "unicode_db \<Rightarrow> unicode \<Rightarrow> unicode" where
  "upper db s = map (toupper db) s"

text \<open>
  \<^verbatim>\<open>s.split(sep)\<close> for a one-character separator: the pieces between the
  separators, empty pieces kept; the result is never the empty list.
\<close>

fun split :: "codepoint \<Rightarrow> unicode \<Rightarrow> unicode list" where
  "split sep [] = [[]]"
| "split sep (c # cs) =
     (if c = sep then [] # split sep cs
      else (case split sep cs of
              [] \<Rightarrow> [[c]]
            | p # ps \<Rightarrow> (c # p) # ps))"

text \<open>\<^verbatim>\<open>s.startswith(p)\<close> and \<^verbatim>\<open>s.endswith(p)\<close>.\<close>

definition startswith :: "unicode \<Rightarrow> unicode \<Rightarrow> bool" where
  "startswith s p = prefix p s"

definition endswith :: "unicode \<Rightarrow> unicode \<Rightarrow> bool" where
  "endswith s p = suffix p s"

text \<open>
  \<^verbatim>\<open>s.replace(old, new)\<close>: the occurrences of \<open>old\<close> are found from the left,
  without overlap, and each is replaced by \<open>new\<close>. For an empty \<open>old\<close> Python
  inserts \<open>new\<close> before every character and at the end.
\<close>

fun replace :: "unicode \<Rightarrow> unicode \<Rightarrow> unicode \<Rightarrow> unicode" where
  "replace old new [] = (if old = [] then new else [])"
| "replace old new (c # cs) =
     (if old = [] then new @ c # replace old new cs
      else if prefix old (c # cs) then new @ replace old new (drop (length old - 1) cs)
      else c # replace old new cs)"

section \<open>Errors\<close>

text \<open>
  The exceptions the script can raise. \<open>AssertionError\<close> carries the message of the
  \<^verbatim>\<open>assert\<close> statement when it has one; \<open>IOError\<close> is \<^verbatim>\<open>open\<close> failing on a
  file name; \<open>KeyError\<close> is a missing dictionary key; \<open>UnicodeEncodeError\<close> is a
  byte-string \<^verbatim>\<open>format\<close> given text that is not ASCII; \<open>Uncaught\<close> is an exception
  raised by the mail library that is not an \<^verbatim>\<open>smtplib.SMTPException\<close>.
\<close>

datatype error =
    AssertionError "unicode option"
  | IOError unicode
  | KeyError unicode
  | UnicodeEncodeError
  | Uncaught unicode

text \<open>
  The file system: a file name is mapped to the decoded lines that iterating over the
  open file yields, each line with its terminator; \<^verbatim>\<open>read()\<close> is their
  concatenation. Files are taken to be valid UTF-8: a \<^verbatim>\<open>UnicodeDecodeError\<close> is
  outside the model.
\<close>

type_synonym files = "unicode \<rightharpoonup> unicode list"

definition open_file :: "files \<Rightarrow> unicode \<Rightarrow> error + unicode list" where
  "open_file fs filename =
     (case fs filename of None \<Rightarrow> Inl (IOError filename) | Some ls \<Rightarrow> Inr ls)"

section \<open>load_config\<close>

type_synonym config = "unicode \<rightharpoonup> unicode"

text \<open>
  One pass of the loop body over a line: the stripped line is split at \<open>=\<close>, and only
  a line with exactly two parts stores \<open>key = value\<close>.
\<close>

definition assignment :: "unicode_db \<Rightarrow> unicode \<Rightarrow> (unicode \<times> unicode) option" where
  "assignment db line =
     (case split (of_char CHR ''='') (strip db line) of
        [k, v] \<Rightarrow> Some (upper db (strip db k), strip db v)
      | _ \<Rightarrow> None)"

fun read_options :: "unicode_db \<Rightarrow> unicode list \<Rightarrow> config \<Rightarrow> config" where
  "read_options db [] c = c"
| "read_options db (line # ls) c =
     (case assignment db line of
        Some (key, val) \<Rightarrow> read_options db ls (c(key \<mapsto> val))
      | None \<Rightarrow> read_options db ls c)"

definition required_keys :: "unicode list" where
  "required_keys = [ustr ''SMTP'', ustr ''FROM'', ustr ''SUBJECT'']"

text \<open>The loop of \<^verbatim>\<open>assert key in _config.keys()\<close>: the first missing key fails.\<close>

fun check_keys :: "unicode list \<Rightarrow> config \<Rightarrow> error option" where
  "check_keys [] c = None"
| "check_keys (key # ks) c =
     (if key \<in> dom c then check_keys ks c else Some (AssertionError None))"

definition defaults :: "config \<Rightarrow> config" where
  "defaults c =
     (let c1 = (if ustr ''REPLY-TO'' \<notin> dom c
                then c(ustr ''REPLY-TO'' := c (ustr ''FROM'')) else c)
      in if ustr ''FIRST_LASTNAME'' \<notin> dom c1
         then c1(ustr ''FIRST_LASTNAME'' \<mapsto> ustr ''Sir or Madam'') else c1)"

definition load_config :: "unicode_db \<Rightarrow> files \<Rightarrow> unicode \<Rightarrow> error + config" where
  "load_config db fs filename =
     (if \<not> endswith filename (ustr ''.ini'') then Inl (AssertionError None)
      else case open_file fs filename of
             Inl e \<Rightarrow> Inl e
           | Inr ls \<Rightarrow>
               (let c = read_options db ls Map.empty
                in case check_keys required_keys c of
                     Some e \<Rightarrow> Inl e
                   | None \<Rightarrow> Inr (defaults c)))"

section \<open>load_template\<close>

definition load_template :: "files \<Rightarrow> unicode \<Rightarrow> error + (unicode \<times> unicode)" where
  "load_template fs filename =
     (if \<not> (endswith filename (ustr ''.html'') \<or> endswith filename (ustr ''.txt''))
      then Inl (AssertionError None)
      else (let mime_type = (if endswith filename (ustr ''.html'') then ustr ''html''
                             else ustr ''plain'')
            in case open_file fs filename of
                 Inl e \<Rightarrow> Inl e
               | Inr ls \<Rightarrow> Inr (concat ls, mime_type)))"

section \<open>load_emails\<close>

text \<open>A row of the recipient list: first name, last name (\<open>None\<close> when blank), email.\<close>

type_synonym recipient = "unicode option \<times> unicode option \<times> unicode"

definition firstname :: "recipient \<Rightarrow> unicode option" where
  "firstname r = fst r"

definition lastname :: "recipient \<Rightarrow> unicode option" where
  "lastname r = fst (snd r)"

definition email_of :: "recipient \<Rightarrow> unicode" where
  "email_of r = snd (snd r)"

text \<open>\<^verbatim>\<open>x or None\<close> for a string \<open>x\<close>.\<close>

definition or_None :: "unicode \<Rightarrow> unicode option" where
  "or_None x = (if x = [] then None else Some x)"

text \<open>
  The condition of the \<^verbatim>\<open>assert\<close> on a stripped line, and the tuple appended for a
  line that passes it.
\<close>

definition row_ok :: "unicode \<Rightarrow> bool" where
  "row_ok line =
     (case split (of_char CHR '','') line of
        [a, b, c] \<Rightarrow> of_char CHR ''@'' \<in> set c
      | _ \<Rightarrow> False)"

definition row_of :: "unicode_db \<Rightarrow> unicode \<Rightarrow> recipient" where
  "row_of db line =
     (case split (of_char CHR '','') line of
        [a, b, c] \<Rightarrow> (or_None (strip db a), or_None (strip db b), strip db c)
      | _ \<Rightarrow> (None, None, []))"

fun read_rows :: "unicode_db \<Rightarrow> unicode list \<Rightarrow> recipient list \<Rightarrow> error + recipient list" where
  "read_rows db [] emails = Inr emails"
| "read_rows db (l # ls) emails =
     (let line = strip db l
      in if startswith line (ustr ''#'') then read_rows db ls emails
         else if \<not> row_ok line then Inl (AssertionError (Some line))
         else read_rows db ls (emails @ [row_of db line]))"

definition load_emails :: "unicode_db \<Rightarrow> files \<Rightarrow> unicode \<Rightarrow> error + recipient list" where
  "load_emails db fs filename =
     (if \<not> endswith filename (ustr ''.csv'') then Inl (AssertionError None)
      else case open_file fs filename of
             Inl e \<Rightarrow> Inl e
           | Inr ls \<Rightarrow> read_rows db ls [])"

section \<open>The send loop\<close>

text \<open>
  The message built for one recipient, and the call made to the mail library: the host
  given to \<^verbatim>\<open>smtplib.SMTP\<close>, then the sender, the recipient list and the message given
  to \<^verbatim>\<open>sendmail\<close>. Serialising the message is left to the library.
\<close>

record message =
  subtype :: unicode
  From :: unicode
  Reply_To :: unicode
  To :: unicode
  Subject :: unicode
  payload :: unicode

record request =
  host :: unicode
  sender :: unicode
  recipients :: "unicode list"
  msg :: message

text \<open>
  What the three library calls \<^verbatim>\<open>SMTP(...)\<close>, \<^verbatim>\<open>sendmail(...)\<close>, \<^verbatim>\<open>quit()\<close> do
  together: they return, or one of them raises an \<^verbatim>\<open>smtplib.SMTPException\<close>, or one
  of them raises an exception of another class (\<^verbatim>\<open>socket.error\<close> when the host
  cannot be reached, for instance). The outcome may depend on the calls made before.
\<close>

datatype outcome = Delivered | SMTPException unicode | OtherException unicode

type_synonym transport = "request list \<Rightarrow> request \<Rightarrow> outcome"

text \<open>The lines the script prints.\<close>

datatype event =
    Init
  | Skip unicode
  | Sent unicode
  | Test unicode "unicode list"
  | Data unicode
  | Fail unicode unicode
  | Done nat nat nat

record run_state =
  ERRORS :: nat
  SKIPPED :: nat
  USED_EMAIL_ADDRESSES :: "unicode set"
  printed :: "event list"
  calls :: "request list"

definition initial :: run_state where
  "initial = \<lparr>ERRORS = 0, SKIPPED = 0, USED_EMAIL_ADDRESSES = {}, printed = [Init], calls = []\<rparr>"

definition lookup :: "config \<Rightarrow> unicode \<Rightarrow> error + unicode" where
  "lookup c key = (case c key of None \<Rightarrow> Inl (KeyError key) | Some v \<Rightarrow> Inr v)"

text \<open>\<^verbatim>\<open>u"{0}".format(x)\<close> for a string or \<^verbatim>\<open>None\<close>.\<close>

definition format_arg :: "unicode option \<Rightarrow> unicode" where
  "format_arg x = (case x of None \<Rightarrow> ustr ''None'' | Some s \<Rightarrow> s)"

text \<open>Truth value of a string or \<^verbatim>\<open>None\<close>.\<close>

definition truthy :: "unicode option \<Rightarrow> bool" where
  "truthy x = (case x of None \<Rightarrow> False | Some s \<Rightarrow> s \<noteq> [])"

definition FIRST_LASTNAME :: "unicode_db \<Rightarrow> config \<Rightarrow> recipient \<Rightarrow> error + unicode" where
  "FIRST_LASTNAME db c r =
     (if truthy (firstname r)
      then Inr (strip db (format_arg (firstname r) @ ustr '' '' @ format_arg (lastname r)))
      else lookup c (ustr ''FIRST_LASTNAME''))"

definition placeholder :: unicode where
  "placeholder = ustr ''{{FIRST_LASTNAME}}''"

definition render :: "unicode \<Rightarrow> unicode \<Rightarrow> unicode" where
  "render template name = replace placeholder name template"

definition build_msg :: "config \<Rightarrow> unicode \<Rightarrow> unicode \<Rightarrow> unicode \<Rightarrow> error + message" where
  "build_msg c mime_type email body =
     (case lookup c (ustr ''FROM'') of
        Inl e \<Rightarrow> Inl e
      | Inr f \<Rightarrow>
         (case lookup c (ustr ''REPLY-TO'') of
            Inl e \<Rightarrow> Inl e
          | Inr rt \<Rightarrow>
             (case lookup c (ustr ''SUBJECT'') of
                Inl e \<Rightarrow> Inl e
              | Inr sj \<Rightarrow>
                  Inr \<lparr>subtype = mime_type, From = f, Reply_To = rt, To = email,
                       Subject = sj, payload = body\<rparr>)))"

definition recipients_of :: "config \<Rightarrow> unicode \<Rightarrow> unicode list" where
  "recipients_of c email = [email] @ (case c (ustr ''BCC'') of None \<Rightarrow> [] | Some b \<Rightarrow> [b])"

text \<open>
  A byte-string \<^verbatim>\<open>"...{0}...".format(x)\<close> of Python 2 encodes a unicode argument
  with the ASCII codec, and raises \<^verbatim>\<open>UnicodeEncodeError\<close> when \<open>x\<close> has a code point
  from 128 on. (A list argument is written with \<^verbatim>\<open>repr\<close> and never fails.)
\<close>

definition is_ascii :: "unicode \<Rightarrow> bool" where
  "is_ascii s = list_all (\<lambda>c. c < 128) s"

text \<open>
  The \<^verbatim>\<open>try\<close> statement at the end of the loop body. An exception that leaves the
  loop is paired with the state in which it was raised: what has been printed and the
  calls that have been made stay as they are. In a dry run the \<open>Test\<close> line is a
  byte-string \<^verbatim>\<open>format\<close> of \<^verbatim>\<open>CONFIG["FROM"]\<close>, which is the \<open>From\<close> header of the
  message; the lines of the live run are unicode \<^verbatim>\<open>format\<close>s, which do not encode.
\<close>

definition try_send ::
  "config \<Rightarrow> bool \<Rightarrow> transport \<Rightarrow> unicode \<Rightarrow> message \<Rightarrow> run_state
     \<Rightarrow> (error \<times> run_state) + run_state" where
  "try_send c dry_run tr email m st =
     (let rs = recipients_of c email
      in if \<not> dry_run then
           (case lookup c (ustr ''SMTP'') of
              Inl e \<Rightarrow> Inl (e, st)
            | Inr h \<Rightarrow>
              (let rq = \<lparr>host = h, sender = From m, recipients = rs, msg = m\<rparr>
               in (case tr (calls st) rq of
                     Delivered \<Rightarrow>
                       Inr (st\<lparr>calls := calls st @ [rq],
                              printed := printed st @ [Sent email]\<rparr>)
                   | SMTPException error_msg \<Rightarrow>
                       Inr (st\<lparr>calls := calls st @ [rq], ERRORS := ERRORS st + 1,
                              printed := printed st @ [Fail email error_msg]\<rparr>)
                   | OtherException d \<Rightarrow>
                       Inl (Uncaught d, st\<lparr>calls := calls st @ [rq]\<rparr>))))
         else if \<not> is_ascii (From m) then Inl (UnicodeEncodeError, st)
         else Inr (st\<lparr>printed := printed st @ [Test (From m) rs, Data (payload m)]\<rparr>))"

text \<open>Lines 228 to 242 of the loop body: the display name, the rendered body, the headers.\<close>

definition message_for ::
  "unicode_db \<Rightarrow> config \<Rightarrow> unicode \<Rightarrow> unicode \<Rightarrow> recipient \<Rightarrow> error + message" where
  "message_for db c template mime_type r =
     (case FIRST_LASTNAME db c r of
        Inl e \<Rightarrow> Inl e
      | Inr name \<Rightarrow> build_msg c mime_type (email_of r) (render template name))"

text \<open>The loop body for one recipient.\<close>

definition send_one ::
  "unicode_db \<Rightarrow> config \<Rightarrow> unicode \<Rightarrow> unicode \<Rightarrow> bool \<Rightarrow> transport \<Rightarrow> recipient \<Rightarrow> run_state
     \<Rightarrow> (error \<times> run_state) + run_state" where
  "send_one db c template mime_type dry_run tr r st =
     (let email = email_of r
      in if email \<in> USED_EMAIL_ADDRESSES st
         then Inr (st\<lparr>printed := printed st @ [Skip email], SKIPPED := SKIPPED st + 1\<rparr>)
         else
           (let st1 = st\<lparr>USED_EMAIL_ADDRESSES := insert email (USED_EMAIL_ADDRESSES st)\<rparr>
            in (case message_for db c template mime_type r of
                  Inl e \<Rightarrow> Inl (e, st1)
                | Inr m \<Rightarrow> try_send c dry_run tr email m st1)))"

fun send_loop ::
  "unicode_db \<Rightarrow> config \<Rightarrow> unicode \<Rightarrow> unicode \<Rightarrow> bool \<Rightarrow> transport \<Rightarrow> recipient list \<Rightarrow> run_state
     \<Rightarrow> (error \<times> run_state) + run_state" where
  "send_loop db c template mime_type dry_run tr [] st = Inr st"
| "send_loop db c template mime_type dry_run tr (r # rs) st =
     (case send_one db c template mime_type dry_run tr r st of
        Inl e \<Rightarrow> Inl e
      | Inr st' \<Rightarrow> send_loop db c template mime_type dry_run tr rs st')"

section \<open>The script\<close>

text \<open>
  The command line is taken as parsed: the \<^verbatim>\<open>--dry-run\<close> flag and the three file
  names. How a run ends: \<open>Exit_failure\<close> is \<^verbatim>\<open>sys.exit(-1)\<close> after a failed load,
  before the loop; \<open>Traceback\<close> is an exception that leaves the loop, with the state in
  which it was raised; \<open>Finished\<close> is the state after the final report has been
  printed.
\<close>

datatype ending = Exit_failure error | Traceback error run_state | Finished run_state

definition main ::
  "unicode_db \<Rightarrow> files \<Rightarrow> transport \<Rightarrow> bool \<Rightarrow> unicode \<Rightarrow> unicode \<Rightarrow> unicode \<Rightarrow> ending" where
  "main db fs tr dry_run config_ini mail_file emails_csv =
     (case load_config db fs config_ini of
        Inl e \<Rightarrow> Exit_failure e
      | Inr c \<Rightarrow>
         (case load_template fs mail_file of
            Inl e \<Rightarrow> Exit_failure e
          | Inr (template, mime_type) \<Rightarrow>
             (case load_emails db fs emails_csv of
                Inl e \<Rightarrow> Exit_failure e
              | Inr emails \<Rightarrow>
                 (case send_loop db c template mime_type dry_run tr emails initial of
                    Inl (e, st) \<Rightarrow> Traceback e st
                  | Inr st \<Rightarrow>
                      Finished (st\<lparr>printed := printed st @
                        [Done (ERRORS st) (SKIPPED st) (length emails)]\<rparr>)))))"

section \<open>Notions used to state the properties\<close>

text \<open>
  The lines of the recipient file that \<open>load_emails\<close> has to parse: the stripped lines
  that are not comments.
\<close>

definition data_lines :: "unicode_db \<Rightarrow> unicode list \<Rightarrow> unicode list" where
  "data_lines db ls = filter (\<lambda>line. \<not> startswith line (ustr ''#'')) (map (strip db) ls)"


text \<open>
  The same with a set of addresses already seen; \<open>first_rows\<close> is the case of the
  empty set.
\<close>

definition fresh_rows :: "unicode set \<Rightarrow> recipient list \<Rightarrow> recipient list" where
  "fresh_rows S rs =
     map (nth rs)
       (filter (\<lambda>i. email_of (rs ! i) \<notin> S \<union> set (map email_of (take i rs))) [0..<length rs])"

text \<open>
  The addresses for which the script printed the outcome of an attempt: \<open>Sent\<close> or
  \<open>Fail\<close> in a live run, \<open>Test\<close> (whose recipient list starts with the address) in a
  dry run.
\<close>

fun attempted :: "event list \<Rightarrow> unicode list" where
  "attempted [] = []"
| "attempted (Sent email # es) = email # attempted es"
| "attempted (Fail email d # es) = email # attempted es"
| "attempted (Test f rs # es) = take 1 rs @ attempted es"
| "attempted (e # es) = attempted es"

fun is_Sent :: "event \<Rightarrow> bool" where
  "is_Sent (Sent email) = True"
| "is_Sent e = False"

fun is_Fail :: "event \<Rightarrow> bool" where
  "is_Fail (Fail email d) = True"
| "is_Fail e = False"






fun is_SMTPException :: "outcome \<Rightarrow> bool" where
  "is_SMTPException (SMTPException d) = True"
| "is_SMTPException out = False"

text \<open>
  The outcome of each call in a list of calls to the mail library, each call being made
  after the calls before it.
\<close>

fun outcomes_from :: "transport \<Rightarrow> request list \<Rightarrow> request list \<Rightarrow> outcome list" where
  "outcomes_from tr history [] = []"
| "outcomes_from tr history (rq # rqs) = tr history rq # outcomes_from tr (history @ [rq]) rqs"

definition outcomes :: "transport \<Rightarrow> request list \<Rightarrow> outcome list" where
  "outcomes tr rqs = outcomes_from tr [] rqs"

text \<open>
  The number of positions of a text at which a given text occurs. For the placeholder,
  which cannot overlap itself, this is the number of its occurrences.
\<close>

fun occurrences :: "unicode \<Rightarrow> unicode \<Rightarrow> nat" where
  "occurrences x [] = (if x = [] then 1 else 0)"
| "occurrences x (c # cs) = (if prefix x (c # cs) then 1 else 0) + occurrences x cs"

text \<open>
  \<^verbatim>\<open>sep.join(ps)\<close>, and the pieces of a text between the occurrences of a non-empty
  token, found from the left without overlap as \<open>replace\<close> finds them
  (\<^verbatim>\<open>s.split(tok)\<close>): the text of a template outside its placeholders.
\<close>

fun join :: "unicode \<Rightarrow> unicode list \<Rightarrow> unicode" where
  "join sep [] = []"
| "join sep [p] = p"
| "join sep (p # q # ps) = p @ sep @ join sep (q # ps)"

fun pieces :: "unicode \<Rightarrow> unicode \<Rightarrow> unicode list" where
  "pieces tok [] = [[]]"
| "pieces tok (c # cs) =
     (if tok \<noteq> [] \<and> prefix tok (c # cs) then [] # pieces tok (drop (length tok - 1) cs)
      else (case pieces tok cs of
              [] \<Rightarrow> [[c]]
            | p # ps \<Rightarrow> (c # p) # ps))"

text \<open>
  The positions of \<open>join name ps\<close> at which the copies of the name start: one
  between each piece and the next.
\<close>

fun starts :: "unicode \<Rightarrow> unicode list \<Rightarrow> nat list" where
  "starts name [] = []"
| "starts name [p] = []"
| "starts name (p # q # ps) =
     length p # map (\<lambda>i. length p + length name + i) (starts name (q # ps))"

text \<open>
  The names that cannot make up a placeholder with the text around them: a name that
  does not contain the placeholder, is not contained in it, does not begin with a
  non-empty end of it and does not end with a non-empty beginning of it.
\<close>

definition safe :: "unicode \<Rightarrow> bool" where
  "safe name \<longleftrightarrow>
     \<not> sublist placeholder name \<and> \<not> sublist name placeholder
     \<and> \<not> (\<exists>s \<in> set (suffixes placeholder). s \<noteq> [] \<and> prefix s name)
     \<and> \<not> (\<exists>s \<in> set (prefixes placeholder). s \<noteq> [] \<and> suffix s name)"

section \<open>Concrete inputs\<close>

definition example_files :: files where
  "example_files =
     [ustr ''config.ini'' \<mapsto> [ustr ''SMTP=s\<newline>'', ustr ''FROM=a@x\<newline>'', ustr ''SUBJECT=Hi\<newline>''],
      ustr ''mail.txt'' \<mapsto> [ustr ''Hello {{FIRST_LASTNAME}}!''],
      ustr ''emails.csv'' \<mapsto> [ustr ''John,Doe,john@x\<newline>'', ustr '',,john@x\<newline>'',
        ustr ''# a comment\<newline>'', ustr ''Ann,Lee,ann@x\<newline>''],
      ustr ''blank.csv'' \<mapsto> [ustr ''John,Doe,john@x\<newline>'', ustr ''\<newline>'']]"

text \<open>A mail server that refuses the recipient \<open>john@x\<close> and accepts every other.\<close>

definition refusing_john :: transport where
  "refusing_john history rq =
     (if To (msg rq) = ustr ''john@x'' then SMTPException (ustr ''refused'') else Delivered)"

text \<open>A host that cannot be reached: \<^verbatim>\<open>smtplib.SMTP(host)\<close> raises \<^verbatim>\<open>socket.error\<close>.\<close>

definition unreachable :: transport where
  "unreachable history rq = OtherException (ustr ''Connection refused'')"

text \<open>
  What the three files load to, the message and the call the loop builds for a recipient,
  and the final states of the live run against \<open>refusing_john\<close> and of the dry run.
\<close>

definition example_config :: config where
  "example_config =
     [ustr ''SMTP'' \<mapsto> ustr ''s'', ustr ''FROM'' \<mapsto> ustr ''a@x'', ustr ''SUBJECT'' \<mapsto> ustr ''Hi'',
      ustr ''REPLY-TO'' \<mapsto> ustr ''a@x'', ustr ''FIRST_LASTNAME'' \<mapsto> ustr ''Sir or Madam'']"

definition example_rows :: "recipient list" where
  "example_rows =
     [(Some (ustr ''John''), Some (ustr ''Doe''), ustr ''john@x''),
      (None, None, ustr ''john@x''),
      (Some (ustr ''Ann''), Some (ustr ''Lee''), ustr ''ann@x'')]"

definition example_msg :: "unicode \<Rightarrow> unicode \<Rightarrow> message" where
  "example_msg email body =
     \<lparr>subtype = ustr ''plain'', From = ustr ''a@x'', Reply_To = ustr ''a@x'', To = email,
      Subject = ustr ''Hi'', payload = body\<rparr>"

definition example_request :: "unicode \<Rightarrow> unicode \<Rightarrow> request" where
  "example_request email body =
     \<lparr>host = ustr ''s'', sender = ustr ''a@x'', recipients = [email],
      msg = example_msg email body\<rparr>"

definition example_final :: run_state where
  "example_final =
     \<lparr>ERRORS = 1, SKIPPED = 1,
      USED_EMAIL_ADDRESSES = {ustr ''john@x'', ustr ''ann@x''},
      printed = [Init, Fail (ustr ''john@x'') (ustr ''refused''), Skip (ustr ''john@x''),
        Sent (ustr ''ann@x'')],
      calls = [example_request (ustr ''john@x'') (ustr ''Hello John Doe!''),
        example_request (ustr ''ann@x'') (ustr ''Hello Ann Lee!'')]\<rparr>"







section \<open>Properties\<close>

lemmas text_defs = ustr_def strip_def isspace_def upper_def toupper_def

lemmas run_defs = initial_def send_one_def try_send_def message_for_def FIRST_LASTNAME_def
  build_msg_def lookup_def recipients_of_def render_def placeholder_def truthy_def
  format_arg_def email_of_def firstname_def lastname_def is_ascii_def Let_def

subsection \<open>Text\<close>

lemma ustr_inject [simp]: "ustr a = ustr b \<longleftrightarrow> a = b"
  by (simp add: ustr_def inj_map_eq_map [OF inj_of_char])

lemma split_no_sep: "sep \<notin> set s \<Longrightarrow> split sep s = [s]"
  by (induction s) auto

lemma split_at_first: "sep \<notin> set a \<Longrightarrow> split sep (a @ sep # b) = a # split sep b"
  by (induction a) auto

lemma split_not_Nil: "split sep s \<noteq> []"
  by (induction s) (auto split: list.splits)

lemma length_split: "length (split sep s) = Suc (count_list s sep)"
  by (induction s) (auto split: list.splits simp: split_not_Nil)

lemma concat_split:
  "s = a @ sep # b \<Longrightarrow> sep \<notin> set a \<Longrightarrow> sep \<notin> set b \<Longrightarrow> split sep s = [a, b]"
  by (simp add: split_at_first split_no_sep)

lemma split_two: "split sep s = [a, b] \<Longrightarrow> s = a @ sep # b \<and> sep \<notin> set a \<and> sep \<notin> set b"
proof (induction s arbitrary: a)
  case Nil
  then show ?case by simp
next
  case (Cons c cs)
  show ?case
  proof (cases "c = sep")
    case True
    with Cons.prems have a: "a = []" and s: "split sep cs = [b]" by auto
    have "length (split sep cs) = Suc (count_list cs sep)" by (rule length_split)
    with s have "count_list cs sep = 0" by simp
    then have n: "sep \<notin> set cs" by (simp add: count_list_0_iff)
    with s have "cs = b" by (simp add: split_no_sep)
    with True a n show ?thesis by simp
  next
    case False
    with Cons.prems obtain p where p: "split sep cs = [p, b]" and a: "a = c # p"
      by (auto split: list.splits)
    from Cons.IH [OF p] a False show ?thesis by auto
  qed
qed

lemma endswith_eval: "endswith s p = prefix (rev p) (rev s)"
  by (simp add: endswith_def suffix_to_prefix)

lemma endswith_append: "endswith (n @ p) p"
  by (simp add: endswith_def suffix_def)

subsection \<open>Loading the configuration\<close>

lemma assignment_iff:
  "assignment db l = Some (k, v) \<longleftrightarrow>
     (\<exists>a b. strip db l = a @ ustr ''='' @ b
        \<and> of_char CHR ''='' \<notin> set a \<and> of_char CHR ''='' \<notin> set b
        \<and> k = upper db (strip db a) \<and> v = strip db b)"
  (is "?L \<longleftrightarrow> ?R")
proof
  assume ?L
  then obtain a b where s: "split (of_char CHR ''='') (strip db l) = [a, b]"
    and kv: "k = upper db (strip db a)" "v = strip db b"
    by (auto simp: assignment_def split: list.splits)
  from split_two [OF s] kv show ?R
    by (auto simp: ustr_def)
next
  assume ?R
  then obtain a b where "strip db l = a @ of_char CHR ''='' # b"
    and "of_char CHR ''='' \<notin> set a" "of_char CHR ''='' \<notin> set b"
    and "k = upper db (strip db a)" "v = strip db b"
    by (auto simp: ustr_def)
  then show ?L
    by (simp add: assignment_def concat_split)
qed

lemma read_options_append:
  "read_options db (xs @ ys) c = read_options db ys (read_options db xs c)"
  by (induction xs arbitrary: c) (auto split: option.splits)

lemma read_options_untouched:
  "\<forall>l \<in> set ls. \<forall>v. assignment db l \<noteq> Some (k, v) \<Longrightarrow> read_options db ls c k = c k"
  by (induction ls arbitrary: c) (auto split: option.splits)

lemma dom_read_options:
  "dom (read_options db ls c) = dom c \<union> {k. \<exists>l \<in> set ls. \<exists>v. assignment db l = Some (k, v)}"
  by (induction ls arbitrary: c) (auto split: option.splits)

lemma defaults_explicit: "k \<in> dom c \<Longrightarrow> defaults c k = c k"
  by (auto simp: defaults_def Let_def)

lemma check_keys_None: "check_keys ks c = None \<longleftrightarrow> set ks \<subseteq> dom c"
  by (induction ks) auto

lemma check_required_keys:
  "check_keys required_keys c = None \<longleftrightarrow>
     ustr ''SMTP'' \<in> dom c \<and> ustr ''FROM'' \<in> dom c \<and> ustr ''SUBJECT'' \<in> dom c"
  unfolding check_keys_None by (simp add: required_keys_def)

lemma load_config_Inr:
  "load_config db fs f = Inr c \<longleftrightarrow>
     endswith f (ustr ''.ini'') \<and>
     (\<exists>ls. fs f = Some ls \<and> check_keys required_keys (read_options db ls Map.empty) = None
        \<and> c = defaults (read_options db ls Map.empty))"
  by (auto simp: load_config_def open_file_def Let_def split: option.splits)


lemma example_config_loaded:
  "load_config ascii_db example_files (ustr ''config.ini'') = Inr example_config"
  by (simp add: load_config_def endswith_eval open_file_def example_files_def
      required_keys_def assignment_def defaults_def example_config_def text_defs)

text \<open>
  C6: in a configuration that loads, \<open>REPLY-TO\<close> is the value of \<open>FROM\<close> when no line
  of the file sets it and the value set otherwise, and \<open>FIRST_LASTNAME\<close> is
  \<open>Sir or Madam\<close> when no line sets it. (By \<open>dom_read_options\<close> a key is in the
  domain of \<open>read_options\<close> exactly when some line assigns it.)
\<close>

theorem load_config_defaults:
  assumes "load_config db fs f = Inr c"
  shows "\<exists>ls. fs f = Some ls \<and>
      (let a = read_options db ls Map.empty
       in c (ustr ''FROM'') = a (ustr ''FROM'') \<and> c (ustr ''FROM'') \<noteq> None \<and>
          c (ustr ''REPLY-TO'') =
            (if ustr ''REPLY-TO'' \<in> dom a then a (ustr ''REPLY-TO'') else c (ustr ''FROM'')) \<and>
          c (ustr ''FIRST_LASTNAME'') =
            (if ustr ''FIRST_LASTNAME'' \<in> dom a then a (ustr ''FIRST_LASTNAME'')
             else Some (ustr ''Sir or Madam'')))"
proof -
  from assms obtain ls where ls: "fs f = Some ls"
    and ck: "check_keys required_keys (read_options db ls Map.empty) = None"
    and c: "c = defaults (read_options db ls Map.empty)"
    by (auto simp: load_config_Inr)
  let ?a = "read_options db ls Map.empty"
  from ck have F: "ustr ''FROM'' \<in> dom ?a"
    by (simp add: check_required_keys)
  have ne: "ustr ''FROM'' \<noteq> ustr ''REPLY-TO''" "ustr ''FROM'' \<noteq> ustr ''FIRST_LASTNAME''"
    "ustr ''REPLY-TO'' \<noteq> ustr ''FIRST_LASTNAME''"
    by (simp_all add: ustr_def)
  have 1: "c (ustr ''FROM'') = ?a (ustr ''FROM'')"
    using c F by (simp add: defaults_explicit)
  have 2: "c (ustr ''FROM'') \<noteq> None" using 1 F by auto
  have 3: "c (ustr ''REPLY-TO'') =
            (if ustr ''REPLY-TO'' \<in> dom ?a then ?a (ustr ''REPLY-TO'') else c (ustr ''FROM''))"
    using ne F unfolding c defaults_def Let_def by (auto simp: domIff)
  have 4: "c (ustr ''FIRST_LASTNAME'') =
            (if ustr ''FIRST_LASTNAME'' \<in> dom ?a then ?a (ustr ''FIRST_LASTNAME'')
             else Some (ustr ''Sir or Madam''))"
    using ne unfolding c defaults_def Let_def by (auto simp: domIff)
  from ls 1 2 3 4 show ?thesis by (simp add: Let_def)
qed

theorem load_config_defaults_witness:
  "\<exists>c. load_config ascii_db
          [ustr ''c.ini'' \<mapsto> [ustr ''SMTP=s'', ustr ''FROM=a@x'', ustr ''SUBJECT=Hi'']]
          (ustr ''c.ini'') = Inr c
       \<and> c (ustr ''REPLY-TO'') = Some (ustr ''a@x'')
       \<and> c (ustr ''FIRST_LASTNAME'') = Some (ustr ''Sir or Madam'')"
proof -
  let ?ls = "[ustr ''SMTP=s'', ustr ''FROM=a@x'', ustr ''SUBJECT=Hi'']"
  let ?fs = "[ustr ''c.ini'' \<mapsto> ?ls]"
  let ?c = "defaults (read_options ascii_db ?ls Map.empty)"
  have L: "load_config ascii_db ?fs (ustr ''c.ini'') = Inr ?c"
    by (simp add: load_config_def open_file_def endswith_eval required_keys_def
        assignment_def text_defs)
  have a: "read_options ascii_db ?ls Map.empty =
      [ustr ''SMTP'' \<mapsto> ustr ''s'', ustr ''FROM'' \<mapsto> ustr ''a@x'', ustr ''SUBJECT'' \<mapsto> ustr ''Hi'']"
    by (simp add: assignment_def text_defs)
  from load_config_defaults [OF L]
  have "?c (ustr ''REPLY-TO'') = Some (ustr ''a@x'')
      \<and> ?c (ustr ''FIRST_LASTNAME'') = Some (ustr ''Sir or Madam'')"
    by (simp add: Let_def a del: read_options.simps)
  with L show ?thesis by blast
qed

text \<open>
  C9: when a key is assigned by several lines of the configuration file, the last such
  line wins. A line whose stripped text is \<open>a = b\<close> with no further \<open>=\<close> stores the
  stripped \<open>b\<close> under the stripped, upper-cased \<open>a\<close>, and that is the value in the
  loaded configuration when no later line assigns the same key.
\<close>

theorem last_assignment_wins:
  assumes "load_config db fs f = Inr c"
    and "fs f = Some (xs @ l # ys)"
    and "strip db l = a @ ustr ''='' @ b"
    and "of_char CHR ''='' \<notin> set a" and "of_char CHR ''='' \<notin> set b"
    and "\<forall>l' \<in> set ys. \<forall>v'. assignment db l' \<noteq> Some (upper db (strip db a), v')"
  shows "c (upper db (strip db a)) = Some (strip db b)"
proof -
  let ?k = "upper db (strip db a)"
  let ?r = "read_options db (xs @ l # ys) Map.empty"
  have asg: "assignment db l = Some (?k, strip db b)"
    using assms(3-5) by (auto simp: assignment_iff)
  have "?r = read_options db ys ((read_options db xs Map.empty)(?k \<mapsto> strip db b))"
    by (simp add: read_options_append asg)
  then have r: "?r ?k = Some (strip db b)"
    using assms(6) by (simp add: read_options_untouched)
  from assms(1,2) have "c = defaults ?r" by (simp add: load_config_Inr)
  with r show ?thesis by (simp add: defaults_explicit domI)
qed

theorem last_assignment_wins_witness:
  "\<exists>c. load_config ascii_db
          [ustr ''c.ini'' \<mapsto> [ustr ''SMTP=a'', ustr ''FROM=x'', ustr ''smtp = b'', ustr ''SUBJECT=s'']]
          (ustr ''c.ini'') = Inr c
       \<and> c (ustr ''SMTP'') = Some (ustr ''b'')"
proof -
  let ?xs = "[ustr ''SMTP=a'', ustr ''FROM=x'']"
  let ?ys = "[ustr ''SUBJECT=s'']"
  let ?l = "ustr ''smtp = b''"
  let ?ls = "[ustr ''SMTP=a'', ustr ''FROM=x'', ustr ''smtp = b'', ustr ''SUBJECT=s'']"
  let ?fs = "[ustr ''c.ini'' \<mapsto> ?ls]"
  let ?c = "defaults (read_options ascii_db ?ls Map.empty)"
  have L: "load_config ascii_db ?fs (ustr ''c.ini'') = Inr ?c"
    by (simp add: load_config_def open_file_def endswith_eval required_keys_def
        assignment_def text_defs)
  have F: "?fs (ustr ''c.ini'') = Some (?xs @ ?l # ?ys)" by simp
  have S: "strip ascii_db ?l = ustr ''smtp '' @ ustr ''='' @ ustr '' b''"
    by (simp add: text_defs)
  have A: "of_char CHR ''='' \<notin> set (ustr ''smtp '')" "of_char CHR ''='' \<notin> set (ustr '' b'')"
    by (simp_all add: ustr_def)
  have N: "\<forall>l' \<in> set ?ys. \<forall>v'.
      assignment ascii_db l' \<noteq> Some (upper ascii_db (strip ascii_db (ustr ''smtp '')), v')"
    by (simp add: assignment_def text_defs)
  have K: "upper ascii_db (strip ascii_db (ustr ''smtp '')) = ustr ''SMTP''"
    "strip ascii_db (ustr '' b'') = ustr ''b''"
    by (simp_all add: text_defs)
  have "?c (upper ascii_db (strip ascii_db (ustr ''smtp ''))) = Some (strip ascii_db (ustr '' b''))"
    by (rule last_assignment_wins [OF L F S A N])
  then have "?c (ustr ''SMTP'') = Some (ustr ''b'')"
    unfolding K .
  with L show ?thesis by blast
qed

text \<open>
  C10: the check of the required keys tests presence only. The line \<open>FROM=\<close> stores
  the empty string under \<open>FROM\<close>; a file with the right extension loads exactly when
  \<open>SMTP\<close>, \<open>FROM\<close> and \<open>SUBJECT\<close> are assigned; and the file that assigns the
  empty string to all three loads.
\<close>

theorem required_keys_presence_only:
  "assignment db (ustr ''FROM='') = Some (ustr ''FROM'', [])
   \<and> ((\<exists>c. load_config db (fs(n @ ustr ''.ini'' \<mapsto> ls)) (n @ ustr ''.ini'') = Inr c)
       = (ustr ''SMTP'' \<in> dom (read_options db ls Map.empty)
          \<and> ustr ''FROM'' \<in> dom (read_options db ls Map.empty)
          \<and> ustr ''SUBJECT'' \<in> dom (read_options db ls Map.empty)))
   \<and> (\<exists>c. load_config db
             (fs(n @ ustr ''.ini'' \<mapsto> [ustr ''SMTP='', ustr ''FROM='', ustr ''SUBJECT='']))
             (n @ ustr ''.ini'') = Inr c
          \<and> c (ustr ''SMTP'') = Some [] \<and> c (ustr ''FROM'') = Some []
          \<and> c (ustr ''SUBJECT'') = Some [])"
proof (intro conjI)
  show "assignment db (ustr ''FROM='') = Some (ustr ''FROM'', [])"
    by (simp add: assignment_def text_defs)
  have e: "endswith (n @ ustr ''.ini'') (ustr ''.ini'')"
    by (rule endswith_append)
  show "(\<exists>c. load_config db (fs(n @ ustr ''.ini'' \<mapsto> ls)) (n @ ustr ''.ini'') = Inr c)
     = (ustr ''SMTP'' \<in> dom (read_options db ls Map.empty)
        \<and> ustr ''FROM'' \<in> dom (read_options db ls Map.empty)
        \<and> ustr ''SUBJECT'' \<in> dom (read_options db ls Map.empty))"
    using e by (simp add: load_config_Inr check_required_keys)
  let ?ls = "[ustr ''SMTP='', ustr ''FROM='', ustr ''SUBJECT='']"
  have a: "read_options db ?ls Map.empty =
      [ustr ''SMTP'' \<mapsto> [], ustr ''FROM'' \<mapsto> [], ustr ''SUBJECT'' \<mapsto> []]"
    by (simp add: assignment_def text_defs)
  have "load_config db (fs(n @ ustr ''.ini'' \<mapsto> ?ls)) (n @ ustr ''.ini'')
      = Inr (defaults (read_options db ?ls Map.empty))"
    using e by (simp add: load_config_Inr check_required_keys a del: read_options.simps)
  moreover have "defaults (read_options db ?ls Map.empty) (ustr ''SMTP'') = Some []"
    "defaults (read_options db ?ls Map.empty) (ustr ''FROM'') = Some []"
    "defaults (read_options db ?ls Map.empty) (ustr ''SUBJECT'') = Some []"
    unfolding a by (simp_all add: defaults_explicit)
  ultimately show "\<exists>c. load_config db (fs(n @ ustr ''.ini'' \<mapsto> ?ls)) (n @ ustr ''.ini'') = Inr c
       \<and> c (ustr ''SMTP'') = Some [] \<and> c (ustr ''FROM'') = Some []
       \<and> c (ustr ''SUBJECT'') = Some []"
    by blast
qed

subsection \<open>Loading the recipients\<close>

lemma data_lines_Nil [simp]: "data_lines db [] = []"
  by (simp add: data_lines_def)

lemma data_lines_Cons:
  "data_lines db (l # ls) =
     (if startswith (strip db l) (ustr ''#'') then data_lines db ls
      else strip db l # data_lines db ls)"
  by (simp add: data_lines_def)

lemma read_rows_data_lines:
  "read_rows db ls acc =
     (case find (\<lambda>line. \<not> row_ok line) (data_lines db ls) of
        Some line \<Rightarrow> Inl (AssertionError (Some line))
      | None \<Rightarrow> Inr (acc @ map (row_of db) (data_lines db ls)))"
proof (induction ls arbitrary: acc)
  case Nil
  show ?case by simp
next
  case (Cons l ls)
  show ?case
  proof (cases "startswith (strip db l) (ustr ''#'')")
    case True
    with Cons.IH [of acc] show ?thesis
      by (simp add: data_lines_Cons split: option.splits)
  next
    case comment: False
    show ?thesis
    proof (cases "row_ok (strip db l)")
      case True
      with comment Cons.IH [of "acc @ [row_of db (strip db l)]"] show ?thesis
        by (simp add: data_lines_Cons split: option.splits)
    next
      case False
      with comment show ?thesis
        by (simp add: data_lines_Cons split: option.splits)
    qed
  qed
qed

lemma blank_line_not_ok: "\<not> row_ok [] \<and> \<not> startswith [] (ustr ''#'')"
  by (simp add: row_ok_def startswith_def ustr_def)

lemma main_load_emails_fails:
  "load_emails db fs emails_csv = Inl e \<Longrightarrow>
   \<exists>e'. main db fs tr dry_run config_ini mail_file emails_csv = Exit_failure e'"
  by (simp add: main_def split: sum.splits prod.splits)

lemma load_emails_csv:
  "load_emails db (fs(n @ ustr ''.csv'' \<mapsto> ls)) (n @ ustr ''.csv'') = read_rows db ls []"
  by (simp add: load_emails_def endswith_append open_file_def)

lemma example_template_loaded:
  "load_template example_files (ustr ''mail.txt'')
     = Inr (ustr ''Hello {{FIRST_LASTNAME}}!'', ustr ''plain'')"
  by (simp add: load_template_def endswith_eval open_file_def example_files_def ustr_def)

lemma example_rows_loaded:
  "load_emails ascii_db example_files (ustr ''emails.csv'') = Inr example_rows"
  by (simp add: load_emails_def endswith_eval open_file_def example_files_def
      startswith_def row_ok_def row_of_def or_None_def example_rows_def text_defs)

lemma example_blank:
  "load_emails ascii_db example_files (ustr ''blank.csv'') = Inl (AssertionError (Some []))"
  by (simp add: load_emails_def endswith_eval open_file_def example_files_def
      startswith_def row_ok_def row_of_def or_None_def text_defs)

text \<open>
  C4, as the script has it: \<open>load_emails\<close> parses exactly the stripped lines that do
  not start with \<open>#\<close>, blank lines included. Each of them must split at \<open>,\<close> into
  three fields, the third containing \<open>@\<close>; the first line that does not makes loading
  fail with an \<open>AssertionError\<close> that carries the stripped line, and the script then
  exits before the loop. Comment lines produce no record and no failure; a blank line is
  not a comment and is not a well-formed row.
\<close>

theorem load_emails_rows:
  "load_emails db (fs(n @ ustr ''.csv'' \<mapsto> ls)) (n @ ustr ''.csv'') =
     (case find (\<lambda>line. \<not> row_ok line) (data_lines db ls) of
        Some line \<Rightarrow> Inl (AssertionError (Some line))
      | None \<Rightarrow> Inr (map (row_of db) (data_lines db ls)))
   \<and> \<not> row_ok [] \<and> \<not> startswith [] (ustr ''#'')
   \<and> (load_emails db fs emails_csv = Inl e \<longrightarrow>
        (\<exists>e'. main db fs tr dry_run config_ini mail_file emails_csv = Exit_failure e'))"
proof (intro conjI impI)
  show "load_emails db (fs(n @ ustr ''.csv'' \<mapsto> ls)) (n @ ustr ''.csv'') =
     (case find (\<lambda>line. \<not> row_ok line) (data_lines db ls) of
        Some line \<Rightarrow> Inl (AssertionError (Some line))
      | None \<Rightarrow> Inr (map (row_of db) (data_lines db ls)))"
    unfolding load_emails_csv read_rows_data_lines [of db ls "[]"]
    by (simp split: option.splits)
  from blank_line_not_ok show "\<not> row_ok []" "\<not> startswith [] (ustr ''#'')"
    by simp_all
  assume "load_emails db fs emails_csv = Inl e"
  then show "\<exists>e'. main db fs tr dry_run config_ini mail_file emails_csv = Exit_failure e'"
    by (rule main_load_emails_fails)
qed

theorem load_emails_rows_witness:
  "load_emails ascii_db example_files (ustr ''blank.csv'') = Inl (AssertionError (Some []))
   \<and> (\<exists>e'. main ascii_db example_files unreachable False (ustr ''config.ini'') (ustr ''mail.txt'')
         (ustr ''blank.csv'') = Exit_failure e')"
  using load_emails_rows [of ascii_db example_files "[]" "[]" "ustr ''blank.csv''"
      "AssertionError (Some [])" unreachable False "ustr ''config.ini''" "ustr ''mail.txt''"]
    example_blank
  by blast

text \<open>
  The claim as stated, that a blank line never causes a failure, fails on a file whose
  second line is blank: loading raises and the script exits.
\<close>

theorem blank_line_fails:
  "load_emails ascii_db example_files (ustr ''blank.csv'') = Inl (AssertionError (Some []))
   \<and> main ascii_db example_files refusing_john False (ustr ''config.ini'') (ustr ''mail.txt'')
        (ustr ''blank.csv'') = Exit_failure (AssertionError (Some []))"
proof -
  have c: "\<exists>c. load_config ascii_db example_files (ustr ''config.ini'') = Inr c"
    by (simp add: load_config_def endswith_eval open_file_def example_files_def
        required_keys_def assignment_def text_defs)
  have t: "\<exists>t. load_template example_files (ustr ''mail.txt'') = Inr t"
    by (simp add: load_template_def endswith_eval open_file_def example_files_def ustr_def)
  from c t example_blank show ?thesis
    by (auto simp: main_def)
qed

subsection \<open>The display name and the rendered body\<close>

lemma FIRST_LASTNAME_absent:
  "firstname r = None \<Longrightarrow> FIRST_LASTNAME db c r = lookup c (ustr ''FIRST_LASTNAME'')"
  by (simp add: FIRST_LASTNAME_def truthy_def)

lemma FIRST_LASTNAME_both:
  "firstname r = Some f \<Longrightarrow> f \<noteq> [] \<Longrightarrow> lastname r = Some l \<Longrightarrow>
   FIRST_LASTNAME db c r = Inr (strip db (f @ ustr '' '' @ l))"
  by (simp add: FIRST_LASTNAME_def truthy_def format_arg_def)

text \<open>
  C1: the display name of a record with a first name is claimed to be
  \<open>trim (firstName + " " + (lastName or ""))\<close>, so just the first name when the last
  name is absent. The script formats the absent last name, which is \<^verbatim>\<open>None\<close>, into
  the text: the row \<^verbatim>\<open>John,,john@example.org\<close> is well formed, is loaded with an
  absent last name, and is addressed as \<open>John None\<close>, where the claimed value is
  \<open>John\<close>.
\<close>

theorem FIRST_LASTNAME_lastname_absent:
  "row_ok (ustr ''John,,john@example.org'')
   \<and> row_of db (ustr ''John,,john@example.org'')
       = (Some (ustr ''John''), None, ustr ''john@example.org'')
   \<and> FIRST_LASTNAME db c (Some (ustr ''John''), None, ustr ''john@example.org'')
       = Inr (ustr ''John None'')
   \<and> strip db (ustr ''John'' @ ustr '' '' @ []) = ustr ''John''"
  by (simp add: row_ok_def row_of_def or_None_def FIRST_LASTNAME_def truthy_def firstname_def
      lastname_def format_arg_def text_defs)

lemma occurrences_zero_iff: "occurrences x s = 0 \<longleftrightarrow> \<not> sublist x s"
  by (induction s) (auto simp: sublist_Cons_right)

lemma occurrences_append_ge: "occurrences x zs \<le> occurrences x (ys @ zs)"
  by (induction ys) (auto intro: le_SucI)

lemma occurrences_self_append:
  assumes "x \<noteq> []"
  shows "Suc (occurrences x zs) \<le> occurrences x (x @ zs)"
proof -
  from assms obtain c cs where x: "x = c # cs" by (cases x) auto
  have "occurrences x (x @ zs) = 1 + occurrences x (cs @ zs)"
    by (simp add: x)
  with occurrences_append_ge [of x zs cs] show ?thesis by simp
qed

text \<open>
  The placeholder cannot overlap itself, so an occurrence at the front of a text is
  followed by the occurrences in the rest of the text only.
\<close>

lemma occurrences_skip:
  assumes "\<And>j. 0 < j \<Longrightarrow> j < length tok \<Longrightarrow> \<not> prefix tok (drop j tok @ rest)"
    and "0 < i" and "i \<le> length tok"
  shows "occurrences tok (drop i tok @ rest) = occurrences tok rest"
  using assms(2,3)
proof (induction "length tok - i" arbitrary: i)
  case 0
  then show ?case by simp
next
  case (Suc k)
  then have i: "i < length tok" by simp
  then have d: "drop i tok = tok ! i # drop (Suc i) tok"
    by (simp add: Cons_nth_drop_Suc)
  from Suc.hyps(2) have "k = length tok - Suc i" by simp
  from Suc.hyps(1) [OF this] i
  have "occurrences tok (drop (Suc i) tok @ rest) = occurrences tok rest" by simp
  moreover from assms(1) [OF Suc.prems(1) i] d
  have "\<not> prefix tok (tok ! i # drop (Suc i) tok @ rest)" by simp
  ultimately show ?case by (simp add: d)
qed

lemma placeholder_no_overlap:
  assumes "0 < j" and "j < length placeholder"
  shows "\<not> prefix placeholder (drop j placeholder @ rest)"
proof -
  from assms have "j < 18" by (simp add: placeholder_def ustr_def)
  with assms(1) have "j = 1 \<or> j = 2 \<or> j = 3 \<or> j = 4 \<or> j = 5 \<or> j = 6 \<or> j = 7 \<or> j = 8 \<or> j = 9
      \<or> j = 10 \<or> j = 11 \<or> j = 12 \<or> j = 13 \<or> j = 14 \<or> j = 15 \<or> j = 16 \<or> j = 17"
    by arith
  then show ?thesis
    by (elim disjE) (simp_all add: placeholder_def ustr_def)
qed

lemma occurrences_placeholder_prefix:
  assumes "prefix placeholder (c # cs)"
  shows "occurrences placeholder (c # cs)
     = Suc (occurrences placeholder (drop (length placeholder - 1) cs))"
proof -
  from assms obtain rest where r: "c # cs = placeholder @ rest"
    by (auto simp: prefix_def)
  have p: "placeholder \<noteq> []" by (simp add: placeholder_def ustr_def)
  with r have "hd (c # cs) = hd placeholder" by simp
  with p have t: "placeholder = c # tl placeholder" by simp
  with r have cs: "cs = tl placeholder @ rest"
    by (metis append_Cons list.inject)
  have "drop 1 placeholder = tl placeholder" by (simp add: drop_Suc)
  with occurrences_skip [of placeholder rest 1] placeholder_no_overlap p
  have "occurrences placeholder (tl placeholder @ rest) = occurrences placeholder rest"
    by (simp add: Suc_leI)
  moreover have "drop (length placeholder - 1) cs = rest"
    by (simp add: cs)
  ultimately show ?thesis using assms by (simp add: cs)
qed

text \<open>
  The rendered body is the pieces of the template joined by the name, as the template
  is its pieces joined by the placeholder.
\<close>

lemma pieces_not_Nil: "pieces tok s \<noteq> []"
  by (induction tok s rule: pieces.induct) (auto split: list.splits)

lemma join_Cons_Cons: "join sep ((c # p) # ps) = c # join sep (p # ps)"
  by (cases ps) simp_all

lemma join_Nil_Cons: "ps \<noteq> [] \<Longrightarrow> join sep ([] # ps) = sep @ join sep ps"
  by (cases ps) simp_all

lemma prefix_drop_rest:
  assumes "prefix tok (c # cs)" and "tok \<noteq> []"
  shows "c # cs = tok @ drop (length tok - 1) cs"
proof -
  from assms obtain rest where r: "c # cs = tok @ rest" by (auto simp: prefix_def)
  from assms(2) obtain t ts where t: "tok = t # ts" by (cases tok) auto
  with r have "cs = ts @ rest" by simp
  with t r show ?thesis by simp
qed

lemma replace_join:
  "tok \<noteq> [] \<Longrightarrow> replace tok new s = join new (pieces tok s)"
proof (induction tok s rule: pieces.induct)
  case (1 tok)
  then show ?case by simp
next
  case (2 tok c cs)
  show ?case
  proof (cases "prefix tok (c # cs)")
    case True
    with 2 show ?thesis by (simp add: join_Nil_Cons pieces_not_Nil)
  next
    case False
    obtain p ps where p: "pieces tok cs = p # ps"
      using pieces_not_Nil [of tok cs] by (cases "pieces tok cs") auto
    with 2 False show ?thesis by (simp add: join_Cons_Cons)
  qed
qed

lemma join_pieces:
  "tok \<noteq> [] \<Longrightarrow> join tok (pieces tok s) = s"
proof (induction tok s rule: pieces.induct)
  case (1 tok)
  then show ?case by simp
next
  case (2 tok c cs)
  show ?case
  proof (cases "prefix tok (c # cs)")
    case True
    from 2 True have "join tok (pieces tok (c # cs)) = tok @ drop (length tok - 1) cs"
      by (simp add: join_Nil_Cons pieces_not_Nil)
    with prefix_drop_rest [OF True "2.prems"] show ?thesis by simp
  next
    case False
    obtain p ps where p: "pieces tok cs = p # ps"
      using pieces_not_Nil [of tok cs] by (cases "pieces tok cs") auto
    with 2 False show ?thesis by (simp add: join_Cons_Cons)
  qed
qed

lemma placeholder_not_Nil: "placeholder \<noteq> []"
  by (simp add: placeholder_def ustr_def)

lemma length_pieces:
  "length (pieces placeholder s) = Suc (occurrences placeholder s)"
proof (induction placeholder s rule: pieces.induct)
  case 1
  then show ?case by (simp add: placeholder_not_Nil)
next
  case (2 c cs)
  show ?case
  proof (cases "prefix placeholder (c # cs)")
    case True
    with 2 show ?thesis
      by (simp add: occurrences_placeholder_prefix placeholder_not_Nil del: occurrences.simps)
  next
    case False
    obtain p ps where p: "pieces placeholder cs = p # ps"
      using pieces_not_Nil [of placeholder cs] by (cases "pieces placeholder cs") auto
    with 2 False show ?thesis by simp
  qed
qed

lemma hd_pieces_prefix: "prefix (hd (pieces tok s)) s"
  by (induction tok s rule: pieces.induct) (auto split: list.splits)

lemma pieces_free:
  "tok \<noteq> [] \<Longrightarrow> p \<in> set (pieces tok s) \<Longrightarrow> occurrences tok p = 0"
proof (induction tok s arbitrary: p rule: pieces.induct)
  case (1 tok)
  then show ?case by simp
next
  case (2 tok c cs)
  show ?case
  proof (cases "prefix tok (c # cs)")
    case True
    with 2 show ?thesis by auto
  next
    case False
    obtain q qs where q: "pieces tok cs = q # qs"
      using pieces_not_Nil [of tok cs] by (cases "pieces tok cs") auto
    from hd_pieces_prefix [of tok cs] q have "prefix (c # q) (c # cs)" by simp
    with False have n: "\<not> prefix tok (c # q)"
      using prefix_order.trans by blast
    from "2.IH"(2) [of q] "2.prems" False q have "occurrences tok q = 0" by simp
    with n have "occurrences tok (c # q) = 0" by simp
    moreover from "2.IH"(2) "2.prems" False q have "\<forall>p\<in>set qs. occurrences tok p = 0" by simp
    ultimately show ?thesis using "2.prems" False q by auto
  qed
qed

text \<open>
  How often the name occurs in the body: at least once for each placeholder and each
  occurrence in a piece, at most as often as any one of its characters.
\<close>

lemma occurrences_append_sum:
  "x \<noteq> [] \<Longrightarrow> occurrences x a + occurrences x b \<le> occurrences x (a @ b)"
proof (induction a)
  case Nil
  then show ?case by simp
next
  case (Cons c a)
  have "prefix x (c # a) \<Longrightarrow> prefix x (c # a @ b)"
    using prefix_prefix [of x "c # a" b] by simp
  with Cons show ?case by simp
qed

lemma occurrences_self: "x \<noteq> [] \<Longrightarrow> 1 \<le> occurrences x x"
  using occurrences_self_append [of x "[]"] by simp

lemma occurrences_join_ge:
  "name \<noteq> [] \<Longrightarrow>
   (length ps - 1) + sum_list (map (occurrences name) ps) \<le> occurrences name (join name ps)"
proof (induction name ps rule: join.induct)
  case (1 sep)
  then show ?case by simp
next
  case (2 sep p)
  then show ?case by simp
next
  case (3 sep p q ps)
  let ?R = "join sep (q # ps)"
  from occurrences_append_sum [OF "3.prems", of sep ?R] occurrences_self [OF "3.prems"]
  have "1 + occurrences sep ?R \<le> occurrences sep (sep @ ?R)" by simp
  with occurrences_append_sum [OF "3.prems", of p "sep @ ?R"]
  have "occurrences sep p + 1 + occurrences sep ?R \<le> occurrences sep (p @ sep @ ?R)" by simp
  with "3.IH" [OF "3.prems"] show ?case by simp
qed

lemma occurrences_le_count:
  "occurrences (a @ x # b) s \<le> count_list (drop (length a) s) x"
proof (induction s)
  case Nil
  then show ?case by simp
next
  case (Cons c cs)
  show ?case
  proof (cases "length a \<le> length cs")
    case True
    then have d: "drop (length a) (c # cs) = (c # cs) ! length a # drop (length a) cs"
      by (metis Cons_nth_drop_Suc drop_Suc_Cons le_imp_less_Suc length_Cons)
    have "prefix (a @ x # b) (c # cs) \<Longrightarrow> (c # cs) ! length a = x"
      by (auto simp: prefix_def nth_append)
    with Cons d show ?thesis by simp
  next
    case False
    then have "\<not> prefix (a @ x # b) (c # cs)"
      by (auto dest: prefix_length_le)
    moreover from False have "\<not> sublist (a @ x # b) cs"
      by (auto dest!: sublist_length_le)
    then have "occurrences (a @ x # b) cs = 0" by (simp add: occurrences_zero_iff)
    ultimately show ?thesis by simp
  qed
qed

lemma count_list_drop_le: "count_list (drop n s) x \<le> count_list s x"
proof -
  have "count_list s x = count_list (take n s) x + count_list (drop n s) x"
    by (metis append_take_drop_id count_list_append)
  then show ?thesis by simp
qed

lemma count_list_join:
  "count_list (join sep ps) x
     = (length ps - 1) * count_list sep x + sum_list (map (\<lambda>p. count_list p x) ps)"
  by (induction sep ps rule: join.induct) simp_all

lemma occurrences_join_le:
  assumes "x \<in> set name"
  shows "occurrences name (join name ps)
     \<le> (length ps - 1) * count_list name x + sum_list (map (\<lambda>p. count_list p x) ps)"
proof -
  from assms obtain a b where "name = a @ x # b" by (auto simp: in_set_conv_decomp)
  with occurrences_le_count [of a x b "join name ps"]
  have "occurrences name (join name ps) \<le> count_list (drop (length a) (join name ps)) x"
    by simp
  also have "\<dots> \<le> count_list (join name ps) x" by (rule count_list_drop_le)
  finally show ?thesis by (simp add: count_list_join)
qed

text \<open>
  The name occurs at each of the places where it was put, so it occurs exactly once
  for each placeholder when it occurs at no other place.
\<close>

lemma occurrences_card:
  "occurrences x s = card {i. i \<le> length s \<and> prefix x (drop i s)}"
proof (induction s)
  case Nil
  have "{i. i \<le> length ([] :: unicode) \<and> prefix x (drop i [])} = (if x = [] then {0} else {})"
    by auto
  then show ?case by simp
next
  case (Cons c cs)
  let ?A = "{i. i \<le> length cs \<and> prefix x (drop i cs)}"
  let ?B = "{i. i \<le> length (c # cs) \<and> prefix x (drop i (c # cs))}"
  have B: "?B = (if prefix x (c # cs) then {0} else {}) \<union> Suc ` ?A"
  proof (intro set_eqI iffI)
    fix i assume "i \<in> ?B"
    then show "i \<in> (if prefix x (c # cs) then {0} else {}) \<union> Suc ` ?A"
      by (cases i) auto
  next
    fix i assume "i \<in> (if prefix x (c # cs) then {0} else {}) \<union> Suc ` ?A"
    then show "i \<in> ?B" by (auto split: if_splits)
  qed
  have f: "finite ?A" by simp
  have "card (Suc ` ?A) = card ?A" by (simp add: card_image)
  moreover have "0 \<notin> Suc ` ?A" by auto
  ultimately have "card ?B = (if prefix x (c # cs) then 1 else 0) + card ?A"
    unfolding B using f by simp
  with Cons show ?case by simp
qed

lemma starts_occur:
  "i \<in> set (starts name ps) \<Longrightarrow>
   i \<le> length (join name ps) \<and> prefix name (drop i (join name ps))"
proof (induction name ps arbitrary: i rule: starts.induct)
  case (1 name)
  then show ?case by simp
next
  case (2 name p)
  then show ?case by simp
next
  case (3 name p q ps)
  from "3.prems" consider "i = length p"
    | j where "j \<in> set (starts name (q # ps))" "i = length p + length name + j"
    by auto
  then show ?case
  proof cases
    case 1
    then show ?thesis by simp
  next
    case 2
    from "3.IH" [OF 2(1)] 2(2) show ?thesis by simp
  qed
qed

lemma length_starts: "length (starts name ps) = length ps - 1"
  by (induction name ps rule: starts.induct) simp_all

lemma distinct_starts: "name \<noteq> [] \<Longrightarrow> distinct (starts name ps)"
proof (induction name ps rule: starts.induct)
  case (3 name p q ps)
  have "inj (\<lambda>i. length p + length name + i)" by (simp add: inj_on_def)
  with 3 show ?case by (auto simp: distinct_map inj_on_def)
qed simp_all

lemma occurrences_exact_iff:
  assumes "name \<noteq> []"
  shows "occurrences name (join name ps) = length ps - 1 \<longleftrightarrow>
     (\<forall>i \<le> length (join name ps).
        prefix name (drop i (join name ps)) \<longrightarrow> i \<in> set (starts name ps))"
proof -
  let ?A = "{i. i \<le> length (join name ps) \<and> prefix name (drop i (join name ps))}"
  let ?S = "set (starts name ps)"
  have sub: "?S \<subseteq> ?A" using starts_occur by blast
  have fin: "finite ?A" by simp
  have cS: "card ?S = length ps - 1"
    using distinct_card [OF distinct_starts [OF assms, of ps]] by (simp add: length_starts)
  have occ: "occurrences name (join name ps) = card ?A" by (rule occurrences_card)
  show ?thesis
  proof
    assume "occurrences name (join name ps) = length ps - 1"
    with occ cS have "card ?S = card ?A" by simp
    from card_subset_eq [OF fin sub this] show "\<forall>i \<le> length (join name ps).
        prefix name (drop i (join name ps)) \<longrightarrow> i \<in> set (starts name ps)"
      by blast
  next
    assume "\<forall>i \<le> length (join name ps).
        prefix name (drop i (join name ps)) \<longrightarrow> i \<in> set (starts name ps)"
    then have "?A \<subseteq> ?S" by blast
    with sub have "?A = ?S" by blast
    with occ cS show "occurrences name (join name ps) = length ps - 1" by simp
  qed
qed

text \<open>
  An occurrence of the token in the output of \<open>replace\<close> that starts in copied text
  and runs into an inserted name has an end of the token at the front of the name, or
  the whole name inside the token. A safe name allows neither, and no occurrence of
  the token starts inside it.
\<close>

lemma prefix_into_name:
  assumes "prefix tok (u @ name @ R)" and "length u < length tok"
  shows "(\<exists>s. suffix s tok \<and> s \<noteq> [] \<and> prefix s name) \<or> sublist name tok"
proof -
  from assms(1) have "prefix tok u \<or> (\<exists>us. tok = u @ us \<and> prefix us (name @ R))"
    by (simp add: prefix_append)
  with assms(2) obtain us where us: "tok = u @ us" "prefix us (name @ R)"
    by (auto dest: prefix_length_le)
  from us(1) assms(2) have ne: "us \<noteq> []" by auto
  from us(2) have "prefix us name \<or> (\<exists>vs. us = name @ vs \<and> prefix vs R)"
    by (simp add: prefix_append)
  then show ?thesis
  proof
    assume "prefix us name"
    with ne us(1) have "suffix us tok \<and> us \<noteq> [] \<and> prefix us name"
      by (simp add: suffix_def)
    then show ?thesis by blast
  next
    assume "\<exists>vs. us = name @ vs \<and> prefix vs R"
    with us(1) have "sublist name tok" by (auto simp: sublist_def)
    then show ?thesis ..
  qed
qed

lemma prefix_past_replace:
  "tok \<noteq> [] \<Longrightarrow> \<not> (\<exists>s. suffix s tok \<and> s \<noteq> [] \<and> prefix s name) \<Longrightarrow> \<not> sublist name tok \<Longrightarrow>
   prefix tok (u @ replace tok name v) \<Longrightarrow> prefix tok (u @ v)"
proof (induction tok name v arbitrary: u rule: replace.induct)
  case (1 old new)
  then show ?case by simp
next
  case (2 old new c cs)
  note ne = "2.prems"(1) and cond = "2.prems"(2,3) and pre = "2.prems"(4)
  show ?case
  proof (cases "prefix old (c # cs)")
    case True
    let ?R = "replace old new (drop (length old - 1) cs)"
    from True pre ne have p: "prefix old (u @ new @ ?R)" by simp
    have "length old \<le> length u"
    proof (rule ccontr)
      assume "\<not> length old \<le> length u"
      then have "length u < length old" by simp
      from prefix_into_name [OF p this] cond show False by blast
    qed
    with p have "prefix old u"
      by (auto simp: prefix_append dest: prefix_length_le)
    then show ?thesis by (simp add: prefix_append)
  next
    case False
    with pre ne have "prefix old ((u @ [c]) @ replace old new cs)" by simp
    from "2.IH"(3) [OF ne False ne cond this] show ?thesis by simp
  qed
qed

lemma occurrences_after_name:
  "\<not> (\<exists>s. prefix s tok \<and> s \<noteq> [] \<and> suffix s n) \<Longrightarrow> \<not> sublist tok n \<Longrightarrow>
   occurrences tok (n @ R) = occurrences tok R"
proof (induction n)
  case Nil
  show ?case by simp
next
  case (Cons x xs)
  have "\<not> prefix tok (x # xs @ R)"
  proof
    assume "prefix tok (x # xs @ R)"
    then have "prefix tok ((x # xs) @ R)" by simp
    then have "prefix tok (x # xs) \<or> (\<exists>ws. tok = (x # xs) @ ws)"
      unfolding prefix_append by blast
    then show False
    proof
      assume "prefix tok (x # xs)"
      with Cons.prems(2) show False by blast
    next
      assume "\<exists>ws. tok = (x # xs) @ ws"
      then have "prefix (x # xs) tok \<and> x # xs \<noteq> [] \<and> suffix (x # xs) (x # xs)"
        by auto
      with Cons.prems(1) show False by blast
    qed
  qed
  moreover have "\<not> (\<exists>s. prefix s tok \<and> s \<noteq> [] \<and> suffix s xs)"
    using Cons.prems(1) by (auto simp: suffix_Cons)
  moreover have "\<not> sublist tok xs"
    using Cons.prems(2) by (auto simp: sublist_Cons_right)
  ultimately show ?case using Cons.IH by simp
qed

lemma no_token_left:
  "tok \<noteq> [] \<Longrightarrow> \<not> sublist tok name \<Longrightarrow> \<not> sublist name tok \<Longrightarrow>
   \<not> (\<exists>s. suffix s tok \<and> s \<noteq> [] \<and> prefix s name) \<Longrightarrow>
   \<not> (\<exists>s. prefix s tok \<and> s \<noteq> [] \<and> suffix s name) \<Longrightarrow>
   occurrences tok (replace tok name t) = 0"
proof (induction tok name t rule: replace.induct)
  case (1 old new)
  then show ?case by simp
next
  case (2 old new c cs)
  note ne = "2.prems"(1)
  show ?case
  proof (cases "prefix old (c # cs)")
    case True
    with "2.IH"(2) [OF ne True "2.prems"] ne "2.prems"(2,5) show ?thesis
      by (simp add: occurrences_after_name)
  next
    case False
    have "\<not> prefix old (c # replace old new cs)"
    proof
      assume "prefix old (c # replace old new cs)"
      then have "prefix old ([c] @ replace old new cs)" by simp
      from prefix_past_replace [OF ne "2.prems"(4,3) this] False show False by simp
    qed
    with "2.IH"(3) [OF ne False "2.prems"] ne False show ?thesis by simp
  qed
qed

lemma safe_no_token:
  "safe name \<Longrightarrow> occurrences placeholder (render t name) = 0"
  unfolding render_def safe_def
  by (rule no_token_left) (auto simp: placeholder_not_Nil in_set_suffixes in_set_prefixes)

text \<open>
  A name that is not safe makes up a placeholder with a beginning of the placeholder
  before it and an end of the placeholder after it; \<open>replace\<close> copies that
  beginning and that end, as no placeholder starts inside a beginning of the
  placeholder that is followed by a placeholder.
\<close>

lemma length_placeholder: "length placeholder = 18"
  by (simp add: placeholder_def ustr_def)

lemma placeholder_scan:
  "\<forall>k \<in> set [0..<18]. \<forall>i \<in> set [0..<k].
     \<not> prefix placeholder (drop i (take k placeholder) @ placeholder)"
  by code_simp

lemma prefix_before_token:
  assumes "k < length placeholder" and "i < k"
  shows "\<not> prefix placeholder (drop i (take k placeholder) @ placeholder @ b)"
proof
  let ?y = "drop i (take k placeholder)"
  assume "prefix placeholder (?y @ placeholder @ b)"
  then have "prefix placeholder ((?y @ placeholder) @ b)" by simp
  then have "prefix placeholder (?y @ placeholder)
      \<or> (\<exists>us. placeholder = (?y @ placeholder) @ us)"
    unfolding prefix_append [of placeholder "?y @ placeholder" b] by blast
  then have "prefix placeholder (?y @ placeholder)"
  proof
    assume "\<exists>us. placeholder = (?y @ placeholder) @ us"
    then obtain us where "placeholder = (?y @ placeholder) @ us" ..
    from arg_cong [OF this, of length] have "length ?y = 0" by simp
    with assms show ?thesis by (simp add: length_placeholder)
  qed
  moreover from assms placeholder_scan
  have "\<not> prefix placeholder (?y @ placeholder)"
    by (simp add: length_placeholder)
  ultimately show False by simp
qed

lemma replace_skip:
  "tok \<noteq> [] \<Longrightarrow> \<forall>i<length a. \<not> prefix tok (drop i a @ rest) \<Longrightarrow>
   replace tok new (a @ rest) = a @ replace tok new rest"
proof (induction a)
  case Nil
  show ?case by simp
next
  case (Cons c a)
  from Cons.prems(2) have "\<not> prefix tok (drop 0 (c # a) @ rest)" by blast
  then have n: "\<not> prefix tok (c # a @ rest)" by simp
  have "\<forall>i<length a. \<not> prefix tok (drop i a @ rest)"
  proof (intro allI impI)
    fix i assume "i < length a"
    then have "Suc i < length (c # a)" by simp
    with Cons.prems(2) have "\<not> prefix tok (drop (Suc i) (c # a) @ rest)" by blast
    then show "\<not> prefix tok (drop i a @ rest)" by simp
  qed
  from Cons.IH [OF Cons.prems(1) this] n Cons.prems(1) show ?case by simp
qed

lemma replace_token_front:
  assumes "tok \<noteq> []"
  shows "replace tok new (tok @ b) = new @ replace tok new b"
proof -
  from assms obtain t ts where t: "tok = t # ts" by (cases tok) auto
  then show ?thesis by simp
qed

lemma replace_free:
  "tok \<noteq> [] \<Longrightarrow> occurrences tok s = 0 \<Longrightarrow> replace tok new s = s"
  by (induction s) (auto split: if_splits)

lemma render_around:
  assumes "k < length placeholder" and "length b < length placeholder"
  shows "render (take k placeholder @ placeholder @ b) name = take k placeholder @ name @ b"
proof -
  have "\<not> sublist placeholder b"
    using assms(2) by (auto dest: sublist_length_le)
  then have "replace placeholder name b = b"
    by (simp add: replace_free placeholder_not_Nil occurrences_zero_iff)
  moreover have "\<forall>i<length (take k placeholder).
      \<not> prefix placeholder (drop i (take k placeholder) @ placeholder @ b)"
    using prefix_before_token [OF assms(1)] by simp
  ultimately show ?thesis
    unfolding render_def
    by (simp add: replace_skip [OF placeholder_not_Nil] replace_token_front [OF placeholder_not_Nil])
qed

lemma unsafe_around:
  assumes "\<not> safe name"
  shows "\<exists>k b. k < length placeholder \<and> length b < length placeholder
       \<and> sublist placeholder (take k placeholder @ name @ b)"
proof -
  have pos: "0 < length placeholder" by (simp add: length_placeholder)
  from assms consider "sublist placeholder name"
    | s where "suffix s placeholder" "s \<noteq> []" "prefix s name"
    | s where "prefix s placeholder" "s \<noteq> []" "suffix s name"
    | "sublist name placeholder"
    by (auto simp: safe_def in_set_suffixes in_set_prefixes)
  then show ?thesis
  proof cases
    case 1
    then have "sublist placeholder (take 0 placeholder @ name @ [])" by simp
    with pos show ?thesis
      by (intro exI [of _ 0] exI [of _ "[]"]) simp
  next
    case 2
    then obtain a r where a: "placeholder = a @ s" and r: "name = s @ r"
      by (auto simp: suffix_def prefix_def)
    from arg_cong [OF a, of length] 2(2) have k: "length a < length placeholder" by simp
    have tk: "take (length a) placeholder = a" by (subst a) simp
    have "a @ name = placeholder @ r" by (subst a) (simp add: r)
    then have "prefix placeholder (a @ name)" by (rule prefixI)
    then have "sublist placeholder (take (length a) placeholder @ name @ [])"
      by (simp add: tk prefix_imp_sublist)
    with k pos show ?thesis
      by (intro exI [of _ "length a"] exI [of _ "[]"]) simp
  next
    case 3
    then obtain b r where b: "placeholder = s @ b" and r: "name = r @ s"
      by (auto simp: suffix_def prefix_def)
    from arg_cong [OF b, of length] 3(2) have l: "length b < length placeholder" by simp
    have "name @ b = r @ placeholder" by (subst b) (simp add: r)
    then have "suffix placeholder (name @ b)" by (rule suffixI)
    then have "sublist placeholder (take 0 placeholder @ name @ b)"
      by (simp add: suffix_imp_sublist)
    with l pos show ?thesis
      by (intro exI [of _ 0] exI [of _ b]) simp
  next
    case 4
    then obtain u w where t: "placeholder = u @ name @ w" by (auto simp: sublist_def)
    show ?thesis
    proof (cases "name = []")
      case True
      have "take 1 placeholder @ name @ drop 1 placeholder = placeholder"
        using True by simp
      then have "sublist placeholder (take 1 placeholder @ name @ drop 1 placeholder)" by simp
      moreover have "1 < length placeholder" "length (drop 1 placeholder) < length placeholder"
        by (simp_all add: length_placeholder)
      ultimately show ?thesis
        by (intro exI [of _ 1] exI [of _ "drop 1 placeholder"]) simp
    next
      case False
      with arg_cong [OF t, of length]
      have l: "length u < length placeholder" "length w < length placeholder"
        by simp_all
      have tk: "take (length u) placeholder = u" by (subst t) simp
      have "take (length u) placeholder @ name @ w = placeholder"
        unfolding tk by (rule t [symmetric])
      then have "sublist placeholder (take (length u) placeholder @ name @ w)" by simp
      with l show ?thesis
        by (intro exI [of _ "length u"] exI [of _ w]) simp
    qed
  qed
qed

lemma unsafe_token:
  assumes "\<not> safe name"
  shows "\<exists>t. occurrences placeholder (render t name) \<noteq> 0"
proof -
  from unsafe_around [OF assms] obtain k b where "k < length placeholder"
    "length b < length placeholder" "sublist placeholder (take k placeholder @ name @ b)"
    by blast
  with render_around [of k b name]
  have "occurrences placeholder (render (take k placeholder @ placeholder @ b) name) \<noteq> 0"
    by (simp add: occurrences_zero_iff)
  then show ?thesis ..
qed

lemma safe_iff:
  "safe name \<longleftrightarrow> (\<forall>t. occurrences placeholder (render t name) = 0)"
proof
  assume "safe name"
  then show "\<forall>t. occurrences placeholder (render t name) = 0"
    by (simp add: safe_no_token)
next
  assume a: "\<forall>t. occurrences placeholder (render t name) = 0"
  show "safe name"
  proof (rule ccontr)
    assume "\<not> safe name"
    from unsafe_token [OF this] a show False by simp
  qed
qed

text \<open>
  C7, as the script has it. The rendered body is the text of the template outside its
  placeholders, its pieces, with the name put between them: a template with N
  placeholders has N + 1 pieces, none of which contains a placeholder, and the name
  stands at the N places of the body that \<open>starts\<close> gives. No placeholder remains in
  the body, whatever the template, exactly for the names that are \<open>safe\<close>. A name
  that is not empty stands at N different places, and occurs in the body at least N
  times plus the number of its occurrences in the pieces; it occurs exactly N times if
  and only if it occurs at no place of the body but the N where it was put, and more
  than N times when a piece contains it. For every character of the name, the name
  occurs in the body at most as often as that character does, N times its number in
  the name plus its number in the pieces; so a name with a character that occurs once
  in it and in no piece occurs exactly N times.
\<close>

theorem render_placeholders:
  "render template name = join name (pieces placeholder template)
   \<and> join placeholder (pieces placeholder template) = template
   \<and> length (pieces placeholder template) = Suc (occurrences placeholder template)
   \<and> (\<forall>p \<in> set (pieces placeholder template). occurrences placeholder p = 0)
   \<and> length (starts name (pieces placeholder template)) = occurrences placeholder template
   \<and> (\<forall>i \<in> set (starts name (pieces placeholder template)).
         i \<le> length (render template name) \<and> prefix name (drop i (render template name)))
   \<and> (safe name \<longleftrightarrow> (\<forall>t. occurrences placeholder (render t name) = 0))
   \<and> (name \<noteq> [] \<longrightarrow>
        distinct (starts name (pieces placeholder template))
        \<and> occurrences placeholder template
             + sum_list (map (occurrences name) (pieces placeholder template))
           \<le> occurrences name (render template name)
        \<and> (occurrences name (render template name) = occurrences placeholder template \<longleftrightarrow>
             (\<forall>i \<le> length (render template name).
                prefix name (drop i (render template name)) \<longrightarrow>
                i \<in> set (starts name (pieces placeholder template)))))
   \<and> (x \<in> set name \<longrightarrow>
        occurrences name (render template name)
          \<le> occurrences placeholder template * count_list name x
             + sum_list (map (\<lambda>p. count_list p x) (pieces placeholder template)))
   \<and> (x \<in> set name \<and> count_list name x = 1
        \<and> (\<forall>p \<in> set (pieces placeholder template). x \<notin> set p) \<longrightarrow>
        occurrences name (render template name) = occurrences placeholder template)
   \<and> (name \<noteq> [] \<and> (\<exists>p \<in> set (pieces placeholder template). sublist name p) \<longrightarrow>
        occurrences placeholder template < occurrences name (render template name))"
proof -
  let ?ps = "pieces placeholder template"
  let ?N = "occurrences placeholder template"
  have r: "render template name = join name ?ps"
    by (simp add: render_def replace_join placeholder_not_Nil)
  have len: "length ?ps - 1 = ?N" by (simp add: length_pieces)
  have lower: "?N + sum_list (map (occurrences name) ?ps) \<le> occurrences name (render template name)"
    if "name \<noteq> []"
    using occurrences_join_ge [OF that, of ?ps] unfolding r len .
  have upper: "occurrences name (render template name)
      \<le> ?N * count_list name x + sum_list (map (\<lambda>p. count_list p x) ?ps)"
    if "x \<in> set name"
    using occurrences_join_le [OF that, of ?ps] unfolding r len .
  have 1: "join placeholder ?ps = template"
    by (simp add: join_pieces placeholder_not_Nil)
  have 2: "length ?ps = Suc ?N" by (rule length_pieces)
  have 3: "\<forall>p \<in> set ?ps. occurrences placeholder p = 0"
    using pieces_free [OF placeholder_not_Nil] by blast
  have 4: "length (starts name ?ps) = ?N"
    by (simp add: length_starts length_pieces)
  have 5: "\<forall>i \<in> set (starts name ?ps).
         i \<le> length (render template name) \<and> prefix name (drop i (render template name))"
    unfolding r using starts_occur by blast
  have 6: "safe name \<longleftrightarrow> (\<forall>t. occurrences placeholder (render t name) = 0)"
    by (rule safe_iff)
  have 7: "name \<noteq> [] \<longrightarrow>
        distinct (starts name ?ps)
        \<and> ?N + sum_list (map (occurrences name) ?ps) \<le> occurrences name (render template name)
        \<and> (occurrences name (render template name) = ?N \<longleftrightarrow>
             (\<forall>i \<le> length (render template name).
                prefix name (drop i (render template name)) \<longrightarrow> i \<in> set (starts name ?ps)))"
  proof
    assume n: "name \<noteq> []"
    from occurrences_exact_iff [OF n, of ?ps]
    have "occurrences name (render template name) = ?N \<longleftrightarrow>
             (\<forall>i \<le> length (render template name).
                prefix name (drop i (render template name)) \<longrightarrow> i \<in> set (starts name ?ps))"
      unfolding r len .
    with distinct_starts [OF n, of ?ps] lower [OF n]
    show "distinct (starts name ?ps)
        \<and> ?N + sum_list (map (occurrences name) ?ps) \<le> occurrences name (render template name)
        \<and> (occurrences name (render template name) = ?N \<longleftrightarrow>
             (\<forall>i \<le> length (render template name).
                prefix name (drop i (render template name)) \<longrightarrow> i \<in> set (starts name ?ps)))"
      by blast
  qed
  have 8: "x \<in> set name \<longrightarrow>
        occurrences name (render template name)
          \<le> ?N * count_list name x + sum_list (map (\<lambda>p. count_list p x) ?ps)"
    using upper by blast
  have 9: "x \<in> set name \<and> count_list name x = 1 \<and> (\<forall>p \<in> set ?ps. x \<notin> set p) \<longrightarrow>
        occurrences name (render template name) = ?N"
  proof
    assume a: "x \<in> set name \<and> count_list name x = 1 \<and> (\<forall>p \<in> set ?ps. x \<notin> set p)"
    then have n: "name \<noteq> []" by auto
    from a have "\<forall>p \<in> set ?ps. count_list p x = 0" by (simp add: count_list_0_iff)
    then have "sum_list (map (\<lambda>p. count_list p x) ?ps) = 0" by simp
    with upper a have "occurrences name (render template name) \<le> ?N" by simp
    moreover from lower [OF n] have "?N \<le> occurrences name (render template name)" by simp
    ultimately show "occurrences name (render template name) = ?N" by simp
  qed
  have 10: "name \<noteq> [] \<and> (\<exists>p \<in> set ?ps. sublist name p) \<longrightarrow>
        ?N < occurrences name (render template name)"
  proof
    assume a: "name \<noteq> [] \<and> (\<exists>p \<in> set ?ps. sublist name p)"
    then obtain p where p: "p \<in> set ?ps" "sublist name p" by blast
    then have "0 < occurrences name p"
      using occurrences_zero_iff [of name p] by simp
    moreover from p(1) have "occurrences name p \<le> sum_list (map (occurrences name) ?ps)"
      by (intro member_le_sum_list) simp_all
    ultimately have "0 < sum_list (map (occurrences name) ?ps)" by simp
    with lower a show "?N < occurrences name (render template name)"
      by fastforce
  qed
  from r 1 2 3 4 5 6 7 8 9 10 show ?thesis by (intro conjI)
qed

theorem render_placeholders_witness:
  "pieces placeholder (ustr ''Dear {{FIRST_LASTNAME}}, hello {{FIRST_LASTNAME}}!'')
     = [ustr ''Dear '', ustr '', hello '', ustr ''!'']
   \<and> render (ustr ''Dear {{FIRST_LASTNAME}}, hello {{FIRST_LASTNAME}}!'') (ustr ''Sir or Madam'')
       = ustr ''Dear Sir or Madam, hello Sir or Madam!''
   \<and> occurrences placeholder (ustr ''Dear {{FIRST_LASTNAME}}, hello {{FIRST_LASTNAME}}!'') = 2
   \<and> safe (ustr ''Sir or Madam'')
   \<and> occurrences placeholder (ustr ''Dear Sir or Madam, hello Sir or Madam!'') = 0
   \<and> count_list (ustr ''Sir or Madam'') (of_char CHR ''S'') = 1
   \<and> occurrences (ustr ''Sir or Madam'') (ustr ''Dear Sir or Madam, hello Sir or Madam!'') = 2
   \<and> starts (ustr ''Sir or Madam'')
        (pieces placeholder (ustr ''Dear {{FIRST_LASTNAME}}, hello {{FIRST_LASTNAME}}!'')) = [5, 25]
   \<and> prefix (ustr ''Sir or Madam'') (drop 25 (ustr ''Dear Sir or Madam, hello Sir or Madam!''))
   \<and> distinct (starts (ustr ''Sir or Madam'')
        (pieces placeholder (ustr ''Dear {{FIRST_LASTNAME}}, hello {{FIRST_LASTNAME}}!'')))
   \<and> occurrences (ustr ''Sir or Madam'') (ustr ''Dear Sir or Madam, hello Sir or Madam!'')
       \<le> 2 * count_list (ustr ''Sir or Madam'') (of_char CHR ''S'')
          + sum_list (map (\<lambda>p. count_list p (of_char CHR ''S''))
              [ustr ''Dear '', ustr '', hello '', ustr ''!''])
   \<and> safe (ustr ''TEAM'')
   \<and> occurrences placeholder
        (render (ustr ''{{FIRST_LASTNAME}}{{FIRST_LASTNAME}}'') (ustr ''TEAM'')) = 0
   \<and> sublist (ustr ''John Doe'') (ustr '', yours John Doe'')
   \<and> 1 < occurrences (ustr ''John Doe'')
        (render (ustr ''Dear {{FIRST_LASTNAME}}, yours John Doe'') (ustr ''John Doe''))"
proof -
  let ?T = "ustr ''Dear {{FIRST_LASTNAME}}, hello {{FIRST_LASTNAME}}!''"
  let ?n = "ustr ''Sir or Madam''"
  let ?B = "ustr ''Dear Sir or Madam, hello Sir or Madam!''"
  let ?T2 = "ustr ''Dear {{FIRST_LASTNAME}}, yours John Doe''"
  let ?j = "ustr ''John Doe''"
  have ps: "pieces placeholder ?T = [ustr ''Dear '', ustr '', hello '', ustr ''!'']"
    by (simp add: placeholder_def ustr_def)
  have r: "render ?T ?n = ?B"
    by (simp add: render_def placeholder_def ustr_def)
  have N: "occurrences placeholder ?T = 2"
    by (simp add: placeholder_def ustr_def)
  have s1: "safe ?n" by code_simp
  have s2: "safe (ustr ''TEAM'')" by code_simp
  have x: "of_char CHR ''S'' \<in> set ?n" "count_list ?n (of_char CHR ''S'') = 1"
    "\<forall>p \<in> set (pieces placeholder ?T). of_char CHR ''S'' \<notin> set p"
    unfolding ps by (simp_all add: ustr_def)
  have st: "starts ?n (pieces placeholder ?T) = [5, 25]"
    unfolding ps by (simp add: ustr_def)
  have ps2: "pieces placeholder ?T2 = [ustr ''Dear '', ustr '', yours John Doe'']"
    by (simp add: placeholder_def ustr_def)
  have sub: "sublist ?j (ustr '', yours John Doe'')" by code_simp
  have N2: "occurrences placeholder ?T2 = 1"
    by (simp add: placeholder_def ustr_def)
  have ne: "?n \<noteq> []" "?j \<noteq> []" by (simp_all add: ustr_def)
  note a = render_placeholders [where template = ?T and name = ?n and x = "of_char CHR ''S''"]
  note b = render_placeholders [where template = ?T2 and name = ?j]
  note c = render_placeholders [where name = "ustr ''TEAM''"]
  from a s1 have 1: "occurrences placeholder (render ?T ?n) = 0" by blast
  from a x have 2: "occurrences ?n (render ?T ?n) = occurrences placeholder ?T" by blast
  from a have "\<forall>i \<in> set (starts ?n (pieces placeholder ?T)).
      i \<le> length (render ?T ?n) \<and> prefix ?n (drop i (render ?T ?n))"
    by blast
  then have 3: "prefix ?n (drop 25 ?B)" unfolding st r by simp
  from a ne(1) have 6: "distinct (starts ?n (pieces placeholder ?T))" by blast
  from a x(1) have "occurrences ?n (render ?T ?n)
       \<le> occurrences placeholder ?T * count_list ?n (of_char CHR ''S'')
          + sum_list (map (\<lambda>p. count_list p (of_char CHR ''S'')) (pieces placeholder ?T))"
    by blast
  then have 7: "occurrences ?n ?B
       \<le> 2 * count_list ?n (of_char CHR ''S'')
          + sum_list (map (\<lambda>p. count_list p (of_char CHR ''S''))
              [ustr ''Dear '', ustr '', hello '', ustr ''!''])"
    unfolding r N ps .
  from c s2 have 4: "occurrences placeholder
        (render (ustr ''{{FIRST_LASTNAME}}{{FIRST_LASTNAME}}'') (ustr ''TEAM'')) = 0"
    by blast
  from sub have "\<exists>p \<in> set (pieces placeholder ?T2). sublist ?j p"
    unfolding ps2 by simp
  with b ne(2) have "occurrences placeholder ?T2 < occurrences ?j (render ?T2 ?j)"
    by blast
  then have 5: "1 < occurrences ?j (render ?T2 ?j)" unfolding N2 .
  from ps r N s1 1 [unfolded r] x(2) 2 [unfolded r N] st 3 6 7 s2 4 sub 5
  show ?thesis by (intro conjI)
qed

text \<open>
  The claim as stated fails twice. The name \<open>_LASTN\<close> contains no placeholder, yet
  put into \<open>{{FIRST{{FIRST_LASTNAME}}AME}}\<close> it completes one. And a template with one
  placeholder that mentions \<open>John Doe\<close> in its own text is rendered for John Doe, a
  name that shares no character with the placeholder, with two occurrences of the name.
\<close>

theorem render_counterexample:
  "occurrences placeholder (ustr ''_LASTN'') = 0
   \<and> occurrences placeholder (ustr ''{{FIRST{{FIRST_LASTNAME}}AME}}'') = 1
   \<and> occurrences placeholder (render (ustr ''{{FIRST{{FIRST_LASTNAME}}AME}}'') (ustr ''_LASTN'')) = 1
   \<and> occurrences placeholder (ustr ''John Doe'') = 0
   \<and> set (ustr ''John Doe'') \<inter> set placeholder = {}
   \<and> occurrences placeholder (ustr ''Dear {{FIRST_LASTNAME}}, yours John Doe'') = 1
   \<and> occurrences placeholder
        (render (ustr ''Dear {{FIRST_LASTNAME}}, yours John Doe'') (ustr ''John Doe'')) = 0
   \<and> occurrences (ustr ''John Doe'')
        (render (ustr ''Dear {{FIRST_LASTNAME}}, yours John Doe'') (ustr ''John Doe'')) = 2"
  by (simp add: render_def placeholder_def ustr_def)

subsection \<open>One pass of the loop body\<close>


lemma fresh_rows_Nil [simp]: "fresh_rows S [] = []"
  by (simp add: fresh_rows_def)

lemma fresh_rows_Cons:
  "fresh_rows S (r # rs) =
     (if email_of r \<in> S then fresh_rows S rs else r # fresh_rows (insert (email_of r) S) rs)"
proof -
  define P where
    "P = (\<lambda>i. email_of ((r # rs) ! i) \<notin> S \<union> set (map email_of (take i (r # rs))))"
  define Q where
    "Q = (\<lambda>T i. email_of (rs ! i) \<notin> T \<union> set (map email_of (take i rs)))"
  have u: "[0..<length (r # rs)] = 0 # map Suc [0..<length rs]"
    by (simp add: upt_conv_Cons map_Suc_upt del: upt_Suc)
  have "fresh_rows S (r # rs) = map (nth (r # rs)) (filter P (0 # map Suc [0..<length rs]))"
    unfolding fresh_rows_def P_def u ..
  also have "\<dots> = (if P 0 then [r] else []) @ map (nth rs) (filter (P \<circ> Suc) [0..<length rs])"
    by (simp add: filter_map comp_def)
  finally have e: "fresh_rows S (r # rs) =
      (if P 0 then [r] else []) @ map (nth rs) (filter (P \<circ> Suc) [0..<length rs])" .
  have p0: "P 0 \<longleftrightarrow> email_of r \<notin> S"
    by (simp add: P_def)
  have q: "fresh_rows T rs = map (nth rs) (filter (Q T) [0..<length rs])" for T
    by (simp add: fresh_rows_def Q_def)
  show ?thesis
  proof (cases "email_of r \<in> S")
    case True
    have "filter (P \<circ> Suc) [0..<length rs] = filter (Q S) [0..<length rs]"
      using True by (intro filter_cong) (auto simp: P_def Q_def)
    with True e p0 q show ?thesis by simp
  next
    case False
    have "filter (P \<circ> Suc) [0..<length rs] = filter (Q (insert (email_of r) S)) [0..<length rs]"
      by (intro filter_cong) (auto simp: P_def Q_def)
    with False e p0 q show ?thesis by simp
  qed
qed

lemma length_fresh_rows: "length (fresh_rows S rs) \<le> length rs"
  by (induction rs arbitrary: S) (auto simp: fresh_rows_Cons le_SucI)

lemma fresh_rows_emails:
  "distinct (map email_of (fresh_rows S rs)) \<and>
   set (map email_of (fresh_rows S rs)) = set (map email_of rs) - S"
  by (induction rs arbitrary: S) (auto simp: fresh_rows_Cons)

lemma attempted_append: "attempted (xs @ ys) = attempted xs @ attempted ys"
  by (induction xs rule: attempted.induct) simp_all

lemma attempted_initial [simp]: "attempted (printed initial) = []"
  by (simp add: initial_def)

lemma filter_initial [simp]:
  "filter is_Fail (printed initial) = []" "filter is_Sent (printed initial) = []"
  "calls initial = []" "ERRORS initial = 0"
  by (simp_all add: initial_def)

lemma outcomes_from_snoc:
  "outcomes_from tr h (cs @ [rq]) = outcomes_from tr h cs @ [tr (h @ cs) rq]"
  by (induction cs arbitrary: h) simp_all

lemma outcomes_snoc: "outcomes tr (cs @ [rq]) = outcomes tr cs @ [tr cs rq]"
  by (simp add: outcomes_def outcomes_from_snoc)

lemma outcomes_Nil [simp]: "outcomes tr [] = []"
  by (simp add: outcomes_def)

lemma take1_recipients_of [simp]: "take (Suc 0) (recipients_of c email) = [email]"
  by (simp add: recipients_of_def)





text \<open>
  What one pass of the loop body does to the state, whenever it does not raise.
\<close>

lemma send_one_Inr:
  assumes "send_one db c t m dry tr r st = Inr st'"
  shows "USED_EMAIL_ADDRESSES st' = insert (email_of r) (USED_EMAIL_ADDRESSES st)"
    and "SKIPPED st' = SKIPPED st + (if email_of r \<in> USED_EMAIL_ADDRESSES st then 1 else 0)"
    and "attempted (printed st') = attempted (printed st) @
          (if email_of r \<in> USED_EMAIL_ADDRESSES st then [] else [email_of r])"
    and "map (\<lambda>rq. Inr (msg rq)) (calls st') = map (\<lambda>rq. Inr (msg rq)) (calls st) @
          (if dry \<or> email_of r \<in> USED_EMAIL_ADDRESSES st then [] else [message_for db c t m r])"
    and "ERRORS st' + length (filter is_Fail (printed st))
          = ERRORS st + length (filter is_Fail (printed st'))"
    and "ERRORS st' + length (filter is_SMTPException (outcomes tr (calls st)))
          = ERRORS st + length (filter is_SMTPException (outcomes tr (calls st')))"
    and "dry \<Longrightarrow> calls st' = calls st \<and> ERRORS st' = ERRORS st
          \<and> filter is_Sent (printed st') = filter is_Sent (printed st)"
  using assms
  by (auto simp: send_one_def try_send_def Let_def attempted_append outcomes_snoc
      split: if_splits sum.splits outcome.splits)



subsection \<open>The loop\<close>




lemma send_loop_attempted:
  "send_loop db c t m dry tr rs st = Inr st' \<Longrightarrow>
   attempted (printed st') =
     attempted (printed st) @ map email_of (fresh_rows (USED_EMAIL_ADDRESSES st) rs)"
proof (induction rs arbitrary: st)
  case Nil
  then show ?case by simp
next
  case (Cons r rs)
  from Cons.prems obtain st1 where 1: "send_one db c t m dry tr r st = Inr st1"
    and 2: "send_loop db c t m dry tr rs st1 = Inr st'"
    by (auto split: sum.splits)
  from Cons.IH [OF 2] send_one_Inr(1,3) [OF 1] show ?case
    by (auto simp: fresh_rows_Cons insert_absorb)
qed





lemma send_loop_invariant:
  "send_loop db c t m dry tr rs st = Inr st' \<Longrightarrow> finite (USED_EMAIL_ADDRESSES st) \<Longrightarrow>
   finite (USED_EMAIL_ADDRESSES st') \<and>
   SKIPPED st' + card (USED_EMAIL_ADDRESSES st')
     = SKIPPED st + card (USED_EMAIL_ADDRESSES st) + length rs"
proof (induction rs arbitrary: st)
  case Nil
  then show ?case by simp
next
  case (Cons r rs)
  from Cons.prems obtain st1 where 1: "send_one db c t m dry tr r st = Inr st1"
    and 2: "send_loop db c t m dry tr rs st1 = Inr st'"
    by (auto split: sum.splits)
  have f: "finite (USED_EMAIL_ADDRESSES st1)"
    using send_one_Inr(1) [OF 1] Cons.prems(2) by simp
  have "SKIPPED st1 + card (USED_EMAIL_ADDRESSES st1)
      = SKIPPED st + card (USED_EMAIL_ADDRESSES st) + 1"
    using send_one_Inr(1,2) [OF 1] Cons.prems(2) by (auto simp: insert_absorb)
  with Cons.IH [OF 2 f] show ?case by simp
qed








lemma main_Finished:
  "main db fs tr dry ci mf ef = Finished st' \<longleftrightarrow>
     (\<exists>c t m emails st. load_config db fs ci = Inr c \<and> load_template fs mf = Inr (t, m)
        \<and> load_emails db fs ef = Inr emails
        \<and> send_loop db c t m dry tr emails initial = Inr st
        \<and> st' = st\<lparr>printed := printed st @ [Done (ERRORS st) (SKIPPED st) (length emails)]\<rparr>)"
  by (auto simp: main_def split: sum.splits prod.splits)



lemma main_Exit_failure:
  "(\<exists>e. main db fs tr dry ci mf ef = Exit_failure e) \<longleftrightarrow>
     \<not> (\<exists>c t m emails. load_config db fs ci = Inr c \<and> load_template fs mf = Inr (t, m)
          \<and> load_emails db fs ef = Inr emails)"
  by (auto simp: main_def split: sum.splits prod.splits)

lemma last_printed_main:
  "main db fs tr dry ci mf ef = Finished st' \<Longrightarrow> load_emails db fs ef = Inr emails \<Longrightarrow>
   last (printed st') = Done (ERRORS st') (SKIPPED st') (length emails)"
  by (auto simp: main_Finished)

subsection \<open>Runs that are left by an exception\<close>







subsection \<open>The example runs\<close>

lemma example_live_run:
  "send_loop ascii_db example_config (ustr ''Hello {{FIRST_LASTNAME}}!'') (ustr ''plain'')
      False refusing_john example_rows initial = Inr example_final"
  by (simp add: example_rows_def example_config_def refusing_john_def example_final_def
      example_request_def example_msg_def run_defs text_defs insert_commute)

lemma example_main_live:
  "main ascii_db example_files refusing_john False (ustr ''config.ini'') (ustr ''mail.txt'')
      (ustr ''emails.csv'')
     = Finished (example_final\<lparr>printed := printed example_final @ [Done 1 1 3]\<rparr>)"
proof -
  have "length example_rows = 3" "ERRORS example_final = 1" "SKIPPED example_final = 1"
    by (simp_all add: example_rows_def example_final_def)
  then show ?thesis
    by (simp add: main_def example_config_loaded example_template_loaded example_rows_loaded
        example_live_run)
qed













subsection \<open>Duplicates, counters and the final report\<close>

text \<open>
  C8: after any number of passes of the loop, the skipped counter plus the size of the
  seen set is the number of recipients processed, and no address has been attempted
  twice; so it is when the script finishes, where the number is that of all recipients.
\<close>

theorem skipped_plus_seen:
  "(send_loop db c t m dry tr ps initial = Inr st \<longrightarrow>
      SKIPPED st + card (USED_EMAIL_ADDRESSES st) = length ps
      \<and> distinct (attempted (printed st)))
   \<and> (main db fs tr dry ci mf ef = Finished st' \<longrightarrow>
        (\<exists>emails. load_emails db fs ef = Inr emails
           \<and> SKIPPED st' + card (USED_EMAIL_ADDRESSES st') = length emails
           \<and> distinct (attempted (printed st'))))"
proof -
  have loop: "SKIPPED s + card (USED_EMAIL_ADDRESSES s) = length rs
      \<and> distinct (attempted (printed s))"
    if "send_loop db' c' t' m' dry tr rs initial = Inr s" for db' c' t' m' rs s
  proof -
    from send_loop_invariant [OF that]
    have "SKIPPED s + card (USED_EMAIL_ADDRESSES s) = length rs"
      by (simp add: initial_def)
    moreover from send_loop_attempted [OF that] fresh_rows_emails
    have "distinct (attempted (printed s))" by simp
    ultimately show ?thesis by simp
  qed
  have "\<exists>emails. load_emails db fs ef = Inr emails
           \<and> SKIPPED st' + card (USED_EMAIL_ADDRESSES st') = length emails
           \<and> distinct (attempted (printed st'))"
    if "main db fs tr dry ci mf ef = Finished st'"
  proof -
    from that obtain c' t' m' emails s where e: "load_emails db fs ef = Inr emails"
      and s: "send_loop db c' t' m' dry tr emails initial = Inr s"
      and st': "st' = s\<lparr>printed := printed s @ [Done (ERRORS s) (SKIPPED s) (length emails)]\<rparr>"
      by (auto simp: main_Finished)
    from loop [OF s] e st' show ?thesis by (simp add: attempted_append)
  qed
  with loop show ?thesis by blast
qed

theorem skipped_plus_seen_witness:
  "send_loop ascii_db example_config (ustr ''Hello {{FIRST_LASTNAME}}!'') (ustr ''plain'')
       False refusing_john example_rows initial = Inr example_final
   \<and> main ascii_db example_files refusing_john False (ustr ''config.ini'') (ustr ''mail.txt'')
        (ustr ''emails.csv'')
       = Finished (example_final\<lparr>printed := printed example_final @ [Done 1 1 3]\<rparr>)
   \<and> SKIPPED example_final + card (USED_EMAIL_ADDRESSES example_final) = 3
   \<and> SKIPPED example_final = 1
   \<and> distinct (attempted (printed example_final))"
proof -
  have "length example_rows = 3"
    by (simp add: example_rows_def)
  moreover have "SKIPPED example_final = 1"
    by (simp add: example_final_def)
  ultimately show ?thesis
    using example_live_run example_main_live
      skipped_plus_seen [of ascii_db example_config "ustr ''Hello {{FIRST_LASTNAME}}!''"
        "ustr ''plain''" False refusing_john example_rows example_final
        example_files "ustr ''config.ini''" "ustr ''mail.txt''" "ustr ''emails.csv''"
        "example_final\<lparr>printed := printed example_final @ [Done 1 1 3]\<rparr>"]
    by simp
qed









end
